theory Spec2Isabelle
  imports Main
begin

section \<open>std::string_view operations used by the parser\<close>

text \<open>
  A \<open>std::string_view\<close> (and a \<open>std::string\<close>) is a \<open>string\<close>. The position
  \<open>npos\<close> returned by the search functions is \<open>None\<close>.
\<close>

fun sv_find :: "string \<Rightarrow> char \<Rightarrow> nat option" where
  "sv_find [] c = None"
| "sv_find (x # xs) c =
     (if x = c then Some 0
      else case sv_find xs c of None \<Rightarrow> None | Some k \<Rightarrow> Some (Suc k))"

fun find_last_of :: "string \<Rightarrow> string \<Rightarrow> nat option" where
  "find_last_of [] cs = None"
| "find_last_of (x # xs) cs =
     (case find_last_of xs cs of
        Some k \<Rightarrow> Some (Suc k)
      | None \<Rightarrow> if x \<in> set cs then Some 0 else None)"

definition substr :: "string \<Rightarrow> nat \<Rightarrow> nat \<Rightarrow> string" where
  "substr s pos n = take n (drop pos s)"

definition substr_from :: "string \<Rightarrow> nat \<Rightarrow> string" where
  "substr_from s pos = drop pos s"

definition remove_prefix :: "string \<Rightarrow> nat \<Rightarrow> string" where
  "remove_prefix s n = drop n s"

section \<open>Caller variables\<close>

text \<open>
  The parser never owns the bound variables: an option keeps a \<open>void*\<close> to a variable of
  the caller. The caller's variables are a store from addresses to values. The element
  and scalar types \<open>T\<close> for which the header has an overload of the static
  \<open>parse(std::string_view, T&)\<close> are \<open>std::string_view\<close>, \<open>std::string\<close>, the
  arithmetic types and \<open>std::optional\<close> of such a type. Of the arithmetic types the
  integer ones are modelled, by signedness and width; \<open>std::from_chars\<close> reports a value
  outside the range of the type instead of wrapping.
\<close>

datatype arith = Signed nat | Unsigned nat

datatype ty = string_view_t | string_t | arith_t arith | optional_t ty

datatype val =
    VBool bool
  | VStr string
  | VNum int
  | VOpt "val option"
  | VVec "val list"

type_synonym addr = nat
type_synonym store = "addr \<Rightarrow> val"

fun min_of :: "arith \<Rightarrow> int" where
  "min_of (Signed w) = - (2 ^ (w - 1))"
| "min_of (Unsigned w) = 0"

fun max_of :: "arith \<Rightarrow> int" where
  "max_of (Signed w) = 2 ^ (w - 1) - 1"
| "max_of (Unsigned w) = 2 ^ w - 1"

fun is_signed :: "arith \<Rightarrow> bool" where
  "is_signed (Signed w) = True"
| "is_signed (Unsigned w) = False"

text \<open>The value-initialised \<open>T\<close> that \<open>emplace()\<close> and \<open>emplace_back()\<close> construct.\<close>

fun default_val :: "ty \<Rightarrow> val" where
  "default_val string_view_t = VStr []"
| "default_val string_t = VStr []"
| "default_val (arith_t T) = VNum 0"
| "default_val (optional_t T) = VOpt None"

section \<open>std::from_chars\<close>

text \<open>
  Modelled from the C++ standard, for base 10 and an integer type: the longest prefix
  made of an optional minus sign (signed types only) and decimal digits is converted.
  Without a digit the result is \<open>invalid_argument\<close> and nothing is written; when the
  number does not fit the type the result is \<open>result_out_of_range\<close>, the digits are
  consumed and nothing is written; otherwise the number is written to \<open>value\<close> and
  \<open>ptr\<close> is the first character that was not consumed. \<open>ptr\<close> is an offset into the
  token; the written value is \<open>Some v\<close>, and \<open>None\<close> when \<open>value\<close> is left alone.
\<close>

datatype errc = errc_ok | invalid_argument | result_out_of_range

record from_chars_result =
  ptr :: nat
  ec :: errc

definition is_digit :: "char \<Rightarrow> bool" where
  "is_digit c = (c \<in> set ''0123456789'')"

definition digit_val :: "char \<Rightarrow> int" where
  "digit_val c = int (of_char c) - 48"

fun digits_val :: "int \<Rightarrow> string \<Rightarrow> int" where
  "digits_val acc [] = acc"
| "digits_val acc (c # cs) = digits_val (acc * 10 + digit_val c) cs"

definition from_chars :: "arith \<Rightarrow> string \<Rightarrow> from_chars_result \<times> int option" where
  "from_chars T str =
     (let neg = (is_signed T \<and> str \<noteq> [] \<and> hd str = CHR ''-'');
          body = (if neg then tl str else str);
          ds = takeWhile is_digit body;
          n = (if neg then 1 else 0) + length ds;
          v = (if neg then - digits_val 0 ds else digits_val 0 ds)
      in if ds = [] then (\<lparr>ptr = 0, ec = invalid_argument\<rparr>, None)
         else if v < min_of T \<or> max_of T < v
           then (\<lparr>ptr = n, ec = result_out_of_range\<rparr>, None)
         else (\<lparr>ptr = n, ec = errc_ok\<rparr>, Some v))"

section \<open>Value binder\<close>

text \<open>
  The overloads of the static \<open>parse(std::string_view str, T& value)\<close>, by the type
  \<open>T\<close>. The function takes the current content of \<open>value\<close> and returns the result with
  the new content. The optional overload parses into \<open>value.emplace()\<close>.
\<close>

fun parse_T :: "ty \<Rightarrow> string \<Rightarrow> val \<Rightarrow> bool \<times> val" where
  "parse_T string_view_t str v = (True, VStr str)"
| "parse_T string_t str v = (True, VStr str)"
| "parse_T (arith_t T) str v =
     (case from_chars T str of
        (res, w) \<Rightarrow>
          (ec res = errc_ok \<and> ptr res = length str,
           case w of None \<Rightarrow> v | Some n \<Rightarrow> VNum n))"
| "parse_T (optional_t T) str v =
     (case parse_T T str (default_val T) of
        (ok, e) \<Rightarrow> (ok, VOpt (Some e)))"

text \<open>
  \<open>ParseFn\<close> is a pointer to one of \<open>parseFlag\<close>, \<open>parseValue<T>\<close> and
  \<open>parseList<T, Alloc>\<close>; \<open>call\<close> calls it on the target address and a token.
  \<open>parseList\<close> reads its target as a vector: \<open>add\<close> instantiates it for a vector
  variable only, and \<open>as_vector\<close> gives the elements of that vector.
\<close>

datatype ParseFn = parseFlag | parseValue ty | parseList ty

fun as_vector :: "val \<Rightarrow> val list" where
  "as_vector (VVec xs) = xs"
| "as_vector v = []"

fun call :: "ParseFn \<Rightarrow> addr \<Rightarrow> string \<Rightarrow> store \<Rightarrow> bool \<times> store" where
  "call parseFlag a str m = (True, m(a := VBool True))"
| "call (parseValue T) a str m =
     (case parse_T T str (m a) of (ok, v) \<Rightarrow> (ok, m(a := v)))"
| "call (parseList T) a str m =
     (case parse_T T str (default_val T) of
        (ok, e) \<Rightarrow> (ok, m(a := VVec (as_vector (m a) @ [e]))))"

section \<open>Options and the parser object\<close>

text \<open>
  The fields of \<open>Option\<close> keep their names, except \<open>value\<close>, \<open>parse\<close> and
  \<open>help\<close>, which are \<open>valuePtr\<close>, \<open>parseFn\<close> and \<open>helpText\<close> here. An
  \<open>Option*\<close> into the vector of options is the index of the option, \<open>nullptr\<close> is
  \<open>None\<close>. The members \<open>program_\<close>, \<open>skipUnknown_\<close>, \<open>options_\<close> and \<open>error_\<close>
  of the parser are the fields \<open>m_program\<close>, \<open>m_skipUnknown\<close>, \<open>m_options\<close> and
  \<open>m_error\<close>.
\<close>

datatype OptionType = param | flag | list

record Option =
  type :: OptionType
  parsed :: bool
  required :: bool
  valuePtr :: addr
  parseFn :: ParseFn
  name :: string
  flags :: string
  helpText :: string
  hint :: string
  position :: int

record CommandLineParser =
  m_program :: string
  m_skipUnknown :: bool
  m_options :: "Option list"
  m_error :: string

definition new_parser :: CommandLineParser where
  "new_parser = \<lparr>m_program = [], m_skipUnknown = False, m_options = [], m_error = []\<rparr>"

text \<open>The constructor \<open>Option::Option\<close>, which splits the specification string.\<close>

definition Option_ctor ::
  "OptionType \<Rightarrow> addr \<Rightarrow> ParseFn \<Rightarrow> string \<Rightarrow> string \<Rightarrow> int \<Rightarrow> Option" where
  "Option_ctor t a f spec hlp pos =
     (let req = (spec \<noteq> [] \<and> spec ! 0 = CHR ''+'');
          spec1 = (if req then remove_prefix spec 1 else spec);
          opt = \<lparr>type = t, parsed = False, required = req, valuePtr = a, parseFn = f,
                 name = spec1, flags = [], helpText = hlp, hint = [], position = pos\<rparr>
      in case sv_find spec1 (CHR '','') of
           None \<Rightarrow> opt
         | Some p1 \<Rightarrow>
             (let spec2 = remove_prefix spec1 (p1 + 1);
                  opt = opt\<lparr>name := substr spec1 0 p1, flags := spec2\<rparr>
              in case sv_find spec2 (CHR '','') of
                   None \<Rightarrow> opt
                 | Some p2 \<Rightarrow>
                     opt\<lparr>flags := substr spec2 0 p2, hint := substr_from spec2 (p2 + 1)\<rparr>))"

definition addFlag :: "addr \<Rightarrow> string \<Rightarrow> string \<Rightarrow> CommandLineParser \<Rightarrow> CommandLineParser" where
  "addFlag a spec hlp p =
     p\<lparr>m_options := m_options p @ [Option_ctor flag a parseFlag spec hlp 0]\<rparr>"

text \<open>\<open>add\<close> for a variable of the scalar type \<open>T\<close>, and for a vector of \<open>T\<close>.\<close>

definition add :: "ty \<Rightarrow> addr \<Rightarrow> string \<Rightarrow> string \<Rightarrow> int \<Rightarrow> CommandLineParser \<Rightarrow> CommandLineParser" where
  "add T a spec hlp pos p =
     p\<lparr>m_options := m_options p @ [Option_ctor param a (parseValue T) spec hlp pos]\<rparr>"

definition add_vector :: "ty \<Rightarrow> addr \<Rightarrow> string \<Rightarrow> string \<Rightarrow> int \<Rightarrow> CommandLineParser \<Rightarrow> CommandLineParser" where
  "add_vector T a spec hlp pos p =
     p\<lparr>m_options := m_options p @ [Option_ctor list a (parseList T) spec hlp pos]\<rparr>"

definition setProgram :: "string \<Rightarrow> CommandLineParser \<Rightarrow> CommandLineParser" where
  "setProgram nm p = p\<lparr>m_program := nm\<rparr>"

definition skipUnknown :: "bool \<Rightarrow> CommandLineParser \<Rightarrow> CommandLineParser" where
  "skipUnknown b p = p\<lparr>m_skipUnknown := b\<rparr>"

definition error :: "CommandLineParser \<Rightarrow> string" where
  "error p = m_error p"

definition formatArgError :: "string \<Rightarrow> string \<Rightarrow> CommandLineParser \<Rightarrow> CommandLineParser" where
  "formatArgError msg arg p = p\<lparr>m_error := m_error p @ msg @ '': '' @ arg\<rparr>"

section \<open>Lookup\<close>

text \<open>
  \<open>findOption(int position)\<close>: the loop over \<open>options_\<close>, with the index \<open>i\<close> of the
  current option and the local \<open>positionalOpt\<close>.
\<close>

fun findOption_pos_loop :: "Option list \<Rightarrow> int \<Rightarrow> nat \<Rightarrow> nat option \<Rightarrow> nat option" where
  "findOption_pos_loop [] pos i positionalOpt = positionalOpt"
| "findOption_pos_loop (opt # opts) pos i positionalOpt =
     (if position opt = pos then Some i
      else findOption_pos_loop opts pos (Suc i)
             (if position opt = - 1 then Some i else positionalOpt))"

definition findOption_pos :: "int \<Rightarrow> CommandLineParser \<Rightarrow> nat option" where
  "findOption_pos pos p = findOption_pos_loop (m_options p) pos 0 None"

text \<open>The loop \<open>for(auto& opt : options_) if(c opt) return &opt;\<close> of the other two lookups.\<close>

fun first_index :: "(Option \<Rightarrow> bool) \<Rightarrow> Option list \<Rightarrow> nat \<Rightarrow> nat option" where
  "first_index c [] i = None"
| "first_index c (opt # opts) i = (if c opt then Some i else first_index c opts (Suc i))"

definition findOption_char :: "char \<Rightarrow> CommandLineParser \<Rightarrow> nat option \<times> CommandLineParser" where
  "findOption_char optChar p =
     (case first_index (\<lambda>opt. sv_find (flags opt) optChar \<noteq> None) (m_options p) 0 of
        Some i \<Rightarrow> (Some i, p)
      | None \<Rightarrow>
          (None, if \<not> m_skipUnknown p
                 then p\<lparr>m_error := ''unknown option: -'' @ [optChar]\<rparr> else p))"

definition findOption_name :: "string \<Rightarrow> CommandLineParser \<Rightarrow> nat option \<times> CommandLineParser" where
  "findOption_name nm p =
     (case first_index (\<lambda>opt. name opt = nm) (m_options p) 0 of
        Some i \<Rightarrow> (Some i, p)
      | None \<Rightarrow>
          (None, if \<not> m_skipUnknown p
                 then p\<lparr>m_error := ''unknown option: --'' @ nm\<rparr> else p))"

section \<open>The parse engine\<close>

text \<open>The assignment \<open>opt->parsed = true\<close> through a pointer into \<open>options_\<close>.\<close>

definition set_parsed :: "nat \<Rightarrow> CommandLineParser \<Rightarrow> CommandLineParser" where
  "set_parsed i p = p\<lparr>m_options := (m_options p)[i := (m_options p ! i)\<lparr>parsed := True\<rparr>]\<rparr>"

definition parseOption ::
  "nat \<Rightarrow> string \<Rightarrow> CommandLineParser \<times> store \<Rightarrow> bool \<times> CommandLineParser \<times> store" where
  "parseOption i v pm =
     (case pm of (p, m) \<Rightarrow>
        (case call (parseFn (m_options p ! i)) (valuePtr (m_options p ! i)) v m of
           (ok, m') \<Rightarrow>
             if ok then (True, p, m')
             else (False, formatArgError ''invalid option value'' v p, m')))"

text \<open>
  One pass of the \<open>while\<close> loop of \<open>parse\<close> either continues, with new values of the
  locals \<open>position\<close>, \<open>lastOption\<close> and \<open>lastOptionUnknown\<close>, or returns from \<open>parse\<close>.
\<close>

datatype step =
    Continue int "nat option" bool "CommandLineParser \<times> store"
  | Return "bool \<times> CommandLineParser \<times> store"

text \<open>The branch \<open>arg[0] != '-'\<close> (a value or positional token).\<close>

definition parse_bare ::
  "bool \<Rightarrow> string \<Rightarrow> int \<Rightarrow> nat option \<Rightarrow> bool \<Rightarrow> CommandLineParser \<times> store \<Rightarrow> step" where
  "parse_bare hasPosArg arg pos lastOption lastOptionUnknown pm =
     (case pm of (p, m) \<Rightarrow>
        if lastOptionUnknown then Continue pos lastOption False (p, m)
        else (case lastOption of
          Some l \<Rightarrow>
            (case parseOption l arg (set_parsed l p, m) of
               (ok, p', m') \<Rightarrow>
                 if \<not> ok then Return (False, p', m')
                 else if type (m_options p' ! l) \<noteq> list \<or> hasPosArg
                   then Continue pos None lastOptionUnknown (p', m')
                 else Continue pos lastOption lastOptionUnknown (p', m'))
        | None \<Rightarrow>
            (case findOption_pos (pos + 1) p of
               None \<Rightarrow> Return (False, formatArgError ''positional arg not allowed'' arg p, m)
             | Some option \<Rightarrow>
                 (case parseOption option arg (set_parsed option p, m) of
                    (ok, p', m') \<Rightarrow>
                      if \<not> ok then Return (False, p', m')
                      else Continue (pos + 1) lastOption lastOptionUnknown (p', m')))))"

text \<open>The loop over the characters of a bundle of short flags.\<close>

fun parse_bundle :: "string \<Rightarrow> CommandLineParser \<times> store \<Rightarrow> bool \<times> CommandLineParser \<times> store" where
  "parse_bundle [] pm = (True, pm)"
| "parse_bundle (optChar # cs) pm =
     (case pm of (p, m) \<Rightarrow>
        (case findOption_char optChar p of
           (None, p') \<Rightarrow>
             if m_skipUnknown p' then parse_bundle cs (p', m) else (False, p', m)
         | (Some option, p') \<Rightarrow>
             if type (m_options p' ! option) \<noteq> flag
             then (False, p'\<lparr>m_error := ''option requires value: '' @ [optChar]\<rparr>, m)
             else parse_bundle cs
                    (set_parsed option p',
                     snd (call (parseFn (m_options p' ! option))
                            (valuePtr (m_options p' ! option)) [] m))))"

text \<open>
  The end of a pass, once the name has been looked up: \<open>found\<close> is the result of
  \<open>findOption\<close>, \<open>hasValue\<close> and \<open>vl\<close> the inline value.
\<close>

definition parse_resolved ::
  "bool \<Rightarrow> string \<Rightarrow> bool \<Rightarrow> string \<Rightarrow> int \<Rightarrow> nat option \<times> CommandLineParser \<Rightarrow> store \<Rightarrow> step" where
  "parse_resolved hasPosArg argValue hasValue vl pos found m =
     (case found of
        (None, p) \<Rightarrow>
          if m_skipUnknown p then Continue pos None True (p, m) else Return (False, p, m)
      | (Some option, p) \<Rightarrow>
          if type (m_options p ! option) = flag then
            (if hasValue
             then Return (False, formatArgError ''option value unexpected'' argValue p, m)
             else Continue pos None False
                    (set_parsed option p,
                     snd (call (parseFn (m_options p ! option))
                            (valuePtr (m_options p ! option)) [] m)))
          else if \<not> hasValue then Continue pos (Some option) False (p, m)
          else
            (case parseOption option vl (set_parsed option p, m) of
               (ok, p', m') \<Rightarrow>
                 if \<not> ok then Return (False, p', m')
                 else if type (m_options p' ! option) = list \<and> \<not> hasPosArg
                   then Continue pos (Some option) False (p', m')
                 else Continue pos None False (p', m')))"

text \<open>The branch of a token that starts with \<open>-\<close>.\<close>

definition parse_dash ::
  "bool \<Rightarrow> string \<Rightarrow> int \<Rightarrow> CommandLineParser \<times> store \<Rightarrow> step" where
  "parse_dash hasPosArg argValue pos pm =
     (case pm of (p, m) \<Rightarrow>
        (let arg1 = remove_prefix argValue 1;
             isName = (arg1 \<noteq> [] \<and> arg1 ! 0 = CHR ''-'');
             arg = (if isName then remove_prefix arg1 1 else arg1)
         in if arg = [] then Continue pos None False (p, m)
            else
              (let eqPos = sv_find arg (CHR ''='')
               in if eqPos = Some 0
                  then Return (False, formatArgError ''missing option name'' argValue p, m)
                  else
                    (let hasValue = (eqPos \<noteq> None);
                         nm = (case eqPos of None \<Rightarrow> arg | Some e \<Rightarrow> substr arg 0 e);
                         vl = (case eqPos of None \<Rightarrow> [] | Some e \<Rightarrow> substr_from arg (e + 1))
                     in if isName
                        then parse_resolved hasPosArg argValue hasValue vl pos
                               (findOption_name nm p) m
                        else if length nm = 1
                        then parse_resolved hasPosArg argValue hasValue vl pos
                               (findOption_char (nm ! 0) p) m
                        else if hasValue
                        then Return (False,
                               formatArgError ''flag/argument mix disallowed'' argValue p, m)
                        else (case parse_bundle nm (p, m) of
                                (ok, pm') \<Rightarrow>
                                  if ok then Continue pos None False pm'
                                  else Return (False, pm'))))))"

text \<open>The body of the \<open>while\<close> loop, for the token \<open>argValue = argv[argNum++]\<close>.\<close>

definition parse_arg ::
  "bool \<Rightarrow> string \<Rightarrow> int \<Rightarrow> nat option \<Rightarrow> bool \<Rightarrow> CommandLineParser \<times> store \<Rightarrow> step" where
  "parse_arg hasPosArg argValue pos lastOption lastOptionUnknown pm =
     (if argValue = [] then Continue pos lastOption lastOptionUnknown pm
      else if argValue ! 0 \<noteq> CHR ''-''
      then parse_bare hasPosArg argValue pos lastOption lastOptionUnknown pm
      else parse_dash hasPosArg argValue pos pm)"

text \<open>
  \<open>argv\<close> is the list of the strings the caller passes; reading \<open>argv[i]\<close> outside of it
  is undefined behaviour, the result \<open>None\<close> of \<open>parse\<close>.
\<close>

definition argv_at :: "string list \<Rightarrow> int \<Rightarrow> string option" where
  "argv_at argv i = (if 0 \<le> i \<and> nat i < length argv then Some (argv ! nat i) else None)"

function parse_loop ::
  "int \<Rightarrow> string list \<Rightarrow> bool \<Rightarrow> int \<Rightarrow> int \<Rightarrow> nat option \<Rightarrow> bool \<Rightarrow> CommandLineParser \<times> store
     \<Rightarrow> (bool \<times> CommandLineParser \<times> store) option" where
  "parse_loop argc argv hasPosArg argNum pos lastOption lastOptionUnknown pm =
     (if argNum < argc then
        (case argv_at argv argNum of
           None \<Rightarrow> None
         | Some argValue \<Rightarrow>
             (case parse_arg hasPosArg argValue pos lastOption lastOptionUnknown pm of
                Return r \<Rightarrow> Some r
              | Continue pos' lastOption' lastOptionUnknown' pm' \<Rightarrow>
                  parse_loop argc argv hasPosArg (argNum + 1) pos' lastOption'
                    lastOptionUnknown' pm'))
      else
        (case lastOption of
           None \<Rightarrow> Some (True, pm)
         | Some l \<Rightarrow>
             if parsed (m_options (fst pm) ! l) then Some (True, pm)
             else (case argv_at argv (argc - 1) of
                     None \<Rightarrow> None
                   | Some a \<Rightarrow>
                       Some (False, formatArgError ''option requires value'' a (fst pm),
                             snd pm))))"
  by pat_completeness auto
termination
  by (relation "measure (\<lambda>(argc, argv, hasPosArg, argNum, rest). nat (argc - argNum))") auto

declare parse_loop.simps [simp del]

text \<open>
  The first statements of \<open>parse\<close>: the program name is \<open>argv[0]\<close> after its last
  \<open>/\<close> or backslash. Then the locals are initialised and the loop runs from
  \<open>argNum = 1\<close>.
\<close>

definition basename :: "string \<Rightarrow> string" where
  "basename s =
     (case find_last_of s [CHR ''/'', CHR 0x5C] of
        None \<Rightarrow> s
      | Some pathSepPos \<Rightarrow> substr_from s (pathSepPos + 1))"

definition parse ::
  "int \<Rightarrow> string list \<Rightarrow> CommandLineParser \<times> store \<Rightarrow> (bool \<times> CommandLineParser \<times> store) option" where
  "parse argc argv pm =
     (case argv_at argv 0 of
        None \<Rightarrow> None
      | Some a0 \<Rightarrow>
          (let p = (fst pm)\<lparr>m_program := basename a0\<rparr>;
               hasPosArg = list_ex (\<lambda>opt. position opt \<noteq> 0) (m_options p)
           in parse_loop argc argv hasPosArg 1 0 None False (p, snd pm)))"

section \<open>Required options and the help text\<close>

text \<open>\<open>std::to_string\<close> of an \<open>int\<close>.\<close>

fun nat_digits :: "nat \<Rightarrow> string" where
  "nat_digits n =
     (if n < 10 then [char_of (48 + n)]
      else nat_digits (n div 10) @ [char_of (48 + n mod 10)])"

declare nat_digits.simps [simp del]

definition to_string :: "int \<Rightarrow> string" where
  "to_string i = (if i < 0 then CHR ''-'' # nat_digits (nat (- i)) else nat_digits (nat i))"

text \<open>
  \<open>formatOptName\<close> appends the display name of the option to \<open>result\<close> and returns the
  number of characters appended, with the new \<open>result\<close>.
\<close>

definition formatOptName :: "Option \<Rightarrow> string \<Rightarrow> nat \<times> string" where
  "formatOptName opt result =
     (let sz = length result in
      if name opt = [] \<and> flags opt = [] then
        (let result = (if hint opt \<noteq> [] then result @ hint opt
                       else result @ ''arg'' @ to_string (position opt))
         in (length result - sz, result))
      else
        (let result = (if flags opt \<noteq> [] then result @ ''-'' @ flags opt else result);
             result = (if name opt \<noteq> [] then
                         result @ (if flags opt \<noteq> [] then '' [ '' else [])
                           @ ''--'' @ name opt
                           @ (if flags opt \<noteq> [] then '' ]'' else [])
                       else result);
             result = (if type opt \<noteq> flag then
                         result @ '' '' @ (if hint opt = [] then ''arg'' else hint opt)
                       else result)
         in (length result - sz, result)))"

text \<open>
  \<open>checkRequired\<close>: the loop over the options; the result is the return value and the
  parser with its new error text.
\<close>

fun checkRequired_loop :: "Option list \<Rightarrow> CommandLineParser \<Rightarrow> bool \<times> CommandLineParser" where
  "checkRequired_loop [] p = (True, p)"
| "checkRequired_loop (opt # opts) p =
     (if \<not> required opt \<or> parsed opt then checkRequired_loop opts p
      else (False, p\<lparr>m_error := snd (formatOptName opt ''required option missing: '')\<rparr>))"

definition checkRequired :: "CommandLineParser \<Rightarrow> bool \<times> CommandLineParser" where
  "checkRequired p = checkRequired_loop (m_options p) p"

text \<open>
  \<open>getHelp\<close>: the first loop builds the usage line and measures the names, with the
  locals \<open>result\<close>, \<open>hasOptions\<close>, \<open>hasPositionalArgs\<close>, \<open>maxNameLen\<close> and
  \<open>maxArgLen\<close>; the two others write the blocks, padded to \<open>width\<close>.
\<close>

definition newline :: char where
  "newline = CHR 0x0A"

fun getHelp_usage ::
  "Option list \<Rightarrow> string \<times> bool \<times> bool \<times> nat \<times> nat \<Rightarrow> string \<times> bool \<times> bool \<times> nat \<times> nat" where
  "getHelp_usage [] acc = acc"
| "getHelp_usage (opt # opts) acc =
     (case acc of (result, hasOptions, hasPositionalArgs, maxNameLen, maxArgLen) \<Rightarrow>
        (case formatOptName opt [] of
           (nameLen, namebuf) \<Rightarrow>
             if name opt \<noteq> [] \<or> flags opt \<noteq> [] then
               getHelp_usage opts
                 (result, True, hasPositionalArgs,
                  (if length namebuf > maxNameLen then length namebuf else maxNameLen),
                  maxArgLen)
             else
               getHelp_usage opts
                 (result @ '' '' @ (if \<not> required opt then ''['' else [])
                    @ namebuf @ (if type opt = list then ''...'' else [])
                    @ (if \<not> required opt then '']'' else []),
                  hasOptions, True, maxNameLen,
                  (if nameLen > maxArgLen then nameLen else maxArgLen))))"

definition getHelp_line :: "Option \<Rightarrow> nat \<Rightarrow> string \<Rightarrow> string" where
  "getHelp_line opt width result =
     (case formatOptName opt (result @ ''  '') of
        (nameLen, result) \<Rightarrow>
          (let result = (if nameLen < width
                         then result @ replicate (width - nameLen) (CHR '' '') else result);
               result = (if helpText opt \<noteq> [] then result @ '' : '' @ helpText opt
                         else result)
           in result @ [newline]))"

fun getHelp_options :: "Option list \<Rightarrow> nat \<Rightarrow> string \<Rightarrow> string" where
  "getHelp_options [] width result = result"
| "getHelp_options (opt # opts) width result =
     (if name opt = [] \<and> flags opt = [] then getHelp_options opts width result
      else getHelp_options opts width (getHelp_line opt width result))"

fun getHelp_positional :: "Option list \<Rightarrow> nat \<Rightarrow> string \<Rightarrow> string" where
  "getHelp_positional [] width result = result"
| "getHelp_positional (opt # opts) width result =
     (if name opt \<noteq> [] \<or> flags opt \<noteq> [] then getHelp_positional opts width result
      else getHelp_positional opts width (getHelp_line opt width result))"

definition getHelp :: "CommandLineParser \<Rightarrow> string" where
  "getHelp p =
     (case getHelp_usage (m_options p) (''usage: '' @ m_program p @ '' [options]'',
                                        False, False, 0, 0) of
        (result, hasOptions, hasPositionalArgs, maxNameLen, maxArgLen) \<Rightarrow>
          (let result = result @ [newline];
               maxNameLen = (if maxNameLen > 30 then 30 else maxNameLen);
               maxArgLen = (if maxArgLen > 30 then 30 else maxArgLen);
               result = (if hasOptions
                         then getHelp_options (m_options p) maxNameLen
                                (result @ ''allowed options:'' @ [newline])
                         else result);
               result = (if hasPositionalArgs
                         then getHelp_positional (m_options p) maxArgLen
                                (result @ ''positional arguments:'' @ [newline])
                         else result)
           in result))"

text \<open>The parser object after a pass of the loop.\<close>

fun step_parser :: "step \<Rightarrow> CommandLineParser" where
  "step_parser (Continue pos lo lu pm) = fst pm"
| "step_parser (Return r) = fst (snd r)"


text \<open>
  The two statements \<open>opt->parsed = true; opt->parse(opt->value, v)\<close>, which \<open>parse\<close>
  runs together at each place where a token or the flag default is applied to an
  option: their effect on the options and on the caller's variables, for the option at
  index \<open>i\<close> and the text \<open>v\<close>. A pass \<open>applies\<close> when its effect on both is that of
  a sequence of such applications.
\<close>

definition apply_value :: "nat \<times> string \<Rightarrow> Option list \<times> store \<Rightarrow> Option list \<times> store" where
  "apply_value iv s =
     (case iv of (i, v) \<Rightarrow>
        (case s of (opts, m) \<Rightarrow>
           (opts[i := (opts ! i)\<lparr>parsed := True\<rparr>],
            snd (call (parseFn (opts ! i)) (valuePtr (opts ! i)) v m))))"


text \<open>
  The lookup of \<open>findOption(char)\<close> without its error text, and the parsers that agree
  on what the lookups read: the short flags and types of the options and the
  skip-unknown mode.
\<close>

definition short_lookup :: "char \<Rightarrow> CommandLineParser \<Rightarrow> nat option" where
  "short_lookup c p = first_index (\<lambda>opt. sv_find (flags opt) c \<noteq> None) (m_options p) 0"

definition same_shape :: "CommandLineParser \<Rightarrow> CommandLineParser \<Rightarrow> bool" where
  "same_shape q p = (map flags (m_options q) = map flags (m_options p)
     \<and> map type (m_options q) = map type (m_options p)
     \<and> m_skipUnknown q = m_skipUnknown p)"

section \<open>The test program\<close>

text \<open>
  The registrations of \<open>main\<close> in the test program, and its variables before \<open>parse\<close>:
  \<open>printHelp\<close> at address 0, \<open>compression\<close> at 1 and \<open>files\<close> at 2.
\<close>

definition test_parser :: CommandLineParser where
  "test_parser =
     add_vector string_view_t 2 ''+,,path'' ''file path(s)'' (- 1)
       (add (optional_t (arith_t (Signed 32))) 1 ''+compression,c,level''
          ''compression level'' 0
          (addFlag 0 ''help,h'' ''print help'' new_parser))"

definition test_store :: store where
  "test_store = (\<lambda>a. if a = 1 then VOpt None else if a = 2 then VVec [] else VBool False)"

lemma test_parser_options:
  "m_options test_parser =
     [\<lparr>type = flag, parsed = False, required = False, valuePtr = 0, parseFn = parseFlag,
        name = ''help'', flags = ''h'', helpText = ''print help'', hint = [], position = 0\<rparr>,
      \<lparr>type = param, parsed = False, required = True, valuePtr = 1,
        parseFn = parseValue (optional_t (arith_t (Signed 32))),
        name = ''compression'', flags = ''c'', helpText = ''compression level'',
        hint = ''level'', position = 0\<rparr>,
      \<lparr>type = list, parsed = False, required = True, valuePtr = 2,
        parseFn = parseList string_view_t, name = [], flags = [],
        helpText = ''file path(s)'', hint = ''path'', position = - 1\<rparr>]"
  by (simp add: test_parser_def add_vector_def add_def addFlag_def new_parser_def
      Option_ctor_def Let_def remove_prefix_def substr_def substr_from_def)

lemma test_parser_fields:
  "m_program test_parser = []" "m_skipUnknown test_parser = False" "m_error test_parser = []"
  by (simp_all add: test_parser_def add_vector_def add_def addFlag_def new_parser_def)

section \<open>The value binder on failure\<close>

text \<open>
  Claim C1, as stated: when parse-and-apply returns failure, the bound variable is left
  unmutated. It fails on the code: the optional overload parses into
  \<open>value.emplace()\<close>, so a failed conversion of \<open>abc\<close> leaves the empty optional
  \<open>compression\<close> of the test program engaged, holding 0.
\<close>

theorem binder_failure_mutates_counterexample:
  "fst (call (parseValue (optional_t (arith_t (Signed 32)))) 1 ''abc'' test_store) = False
   \<and> snd (call (parseValue (optional_t (arith_t (Signed 32)))) 1 ''abc'' test_store) 1
       = VOpt (Some (VNum 0))
   \<and> test_store 1 = VOpt None"
  by (simp add: test_store_def from_chars_def is_digit_def)

text \<open>
  Claim C1, amended: when parse-and-apply returns failure, every caller variable other
  than the bound one is unchanged, and the binder is neither the flag binder nor a text
  binder. The bound variable itself is written in place: a numeric target receives the
  value of the numeric prefix of the token when \<open>std::from_chars\<close> converts one, and is
  unchanged otherwise; an optional target is left engaged; a list target has one
  element appended.
\<close>

theorem binder_failure_effect:
  assumes "call f a tok m = (False, m')"
  shows "(\<forall>b. b \<noteq> a \<longrightarrow> m' b = m b)
       \<and> f \<noteq> parseFlag \<and> f \<noteq> parseValue string_view_t \<and> f \<noteq> parseValue string_t
       \<and> (\<forall>T. f = parseValue (arith_t T) \<longrightarrow>
              m' a = (case snd (from_chars T tok) of None \<Rightarrow> m a | Some n \<Rightarrow> VNum n))
       \<and> (\<forall>T. f = parseValue (optional_t T) \<longrightarrow> (\<exists>e. m' a = VOpt (Some e)))
       \<and> (\<forall>T. f = parseList T \<longrightarrow> (\<exists>e. m' a = VVec (as_vector (m a) @ [e])))"
  using assms by (cases f) (auto split: prod.splits)

theorem binder_failure_effect_witness:
  "call (parseList (arith_t (Signed 32))) 2 ''12abc'' test_store
     = (False, test_store(2 := VVec [VNum 12]))
   \<and> (\<exists>e. (test_store(2 := VVec [VNum 12])) 2 = VVec (as_vector (test_store 2) @ [e]))
   \<and> (test_store(2 := VVec [VNum 12])) 1 = test_store 1"
proof -
  have c: "call (parseList (arith_t (Signed 32))) 2 ''12abc'' test_store
     = (False, test_store(2 := VVec [VNum 12]))"
    by (simp add: test_store_def from_chars_def is_digit_def digit_val_def)
  from binder_failure_effect [OF c] show ?thesis using c by auto
qed

section \<open>Positional lookup\<close>

lemma findOption_pos_loop_exact:
  "\<exists>k<length opts. position (opts ! k) = pos \<Longrightarrow>
   \<exists>k<length opts. findOption_pos_loop opts pos i acc = Some (i + k)
      \<and> position (opts ! k) = pos \<and> (\<forall>j<k. position (opts ! j) \<noteq> pos)"
proof (induction opts arbitrary: i acc)
  case Nil
  then show ?case by simp
next
  case (Cons opt opts)
  show ?case
  proof (cases "position opt = pos")
    case True
    then show ?thesis by (intro exI [of _ 0]) simp
  next
    case False
    from Cons.prems obtain k where k: "k < length (opt # opts)" "position ((opt # opts) ! k) = pos"
      by blast
    with False obtain k' where k': "k = Suc k'" by (cases k) auto
    with k have "\<exists>k<length opts. position (opts ! k) = pos" by auto
    from Cons.IH [OF this, of "Suc i" "if position opt = - 1 then Some i else acc"]
    obtain n where n: "n < length opts"
      "findOption_pos_loop opts pos (Suc i) (if position opt = - 1 then Some i else acc) = Some (Suc i + n)"
      "position (opts ! n) = pos" "\<forall>j<n. position (opts ! j) \<noteq> pos"
      by blast
    show ?thesis
    proof (intro exI [of _ "Suc n"] conjI allI impI)
      show "Suc n < length (opt # opts)" using n by simp
      show "findOption_pos_loop (opt # opts) pos i acc = Some (i + Suc n)" using n False by simp
      show "position ((opt # opts) ! Suc n) = pos" using n by simp
      fix j assume "j < Suc n"
      then show "position ((opt # opts) ! j) \<noteq> pos" using n False by (cases j) auto
    qed
  qed
qed

lemma findOption_pos_loop_no_exact:
  "\<forall>k<length opts. position (opts ! k) \<noteq> pos \<Longrightarrow>
   (if \<exists>k<length opts. position (opts ! k) = - 1
    then \<exists>k<length opts. findOption_pos_loop opts pos i acc = Some (i + k)
           \<and> position (opts ! k) = - 1
           \<and> (\<forall>j. k < j \<and> j < length opts \<longrightarrow> position (opts ! j) \<noteq> - 1)
    else findOption_pos_loop opts pos i acc = acc)"
proof (induction opts arbitrary: i acc)
  case Nil
  then show ?case by simp
next
  case (Cons opt opts)
  have ne: "position opt \<noteq> pos" using Cons.prems by (auto dest: spec [of _ 0])
  have rest: "\<forall>k<length opts. position (opts ! k) \<noteq> pos"
    using Cons.prems by (auto dest: spec [of _ "Suc k" for k])
  note IH = Cons.IH [OF rest, of "Suc i" "if position opt = - 1 then Some i else acc"]
  show ?case
  proof (cases "\<exists>k<length opts. position (opts ! k) = - 1")
    case True
    with IH obtain n where n: "n < length opts"
      "findOption_pos_loop opts pos (Suc i) (if position opt = - 1 then Some i else acc) = Some (Suc i + n)"
      "position (opts ! n) = - 1" "\<forall>j. n < j \<and> j < length opts \<longrightarrow> position (opts ! j) \<noteq> - 1"
      by auto
    from True have ex: "\<exists>k<length (opt # opts). position ((opt # opts) ! k) = - 1"
      by (auto intro: exI [of _ "Suc k" for k])
    have "\<exists>k<length (opt # opts). findOption_pos_loop (opt # opts) pos i acc = Some (i + k)
           \<and> position ((opt # opts) ! k) = - 1
           \<and> (\<forall>j. k < j \<and> j < length (opt # opts) \<longrightarrow> position ((opt # opts) ! j) \<noteq> - 1)"
    proof (intro exI [of _ "Suc n"] conjI allI impI)
      show "Suc n < length (opt # opts)" using n by simp
      show "findOption_pos_loop (opt # opts) pos i acc = Some (i + Suc n)" using n ne by simp
      show "position ((opt # opts) ! Suc n) = - 1" using n by simp
      fix j assume "Suc n < j \<and> j < length (opt # opts)"
      then show "position ((opt # opts) ! j) \<noteq> - 1" using n by (cases j) auto
    qed
    with ex show ?thesis by simp
  next
    case False
    with IH have r: "findOption_pos_loop opts pos (Suc i) (if position opt = - 1 then Some i else acc)
       = (if position opt = - 1 then Some i else acc)" by simp
    show ?thesis
    proof (cases "position opt = - 1")
      case True
      have ex: "\<exists>k<length (opt # opts). position ((opt # opts) ! k) = - 1"
        using True by (intro exI [of _ 0]) simp
      have "\<exists>k<length (opt # opts). findOption_pos_loop (opt # opts) pos i acc = Some (i + k)
           \<and> position ((opt # opts) ! k) = - 1
           \<and> (\<forall>j. k < j \<and> j < length (opt # opts) \<longrightarrow> position ((opt # opts) ! j) \<noteq> - 1)"
      proof (intro exI [of _ 0] conjI allI impI)
        show "0 < length (opt # opts)" by simp
        show "findOption_pos_loop (opt # opts) pos i acc = Some (i + 0)" using r ne True by simp
        show "position ((opt # opts) ! 0) = - 1" using True by simp
        fix j assume "0 < j \<and> j < length (opt # opts)"
        then show "position ((opt # opts) ! j) \<noteq> - 1" using False by (cases j) auto
      qed
      with ex show ?thesis by simp
    next
      case f: False
      have nex: "\<not> (\<exists>k<length (opt # opts). position ((opt # opts) ! k) = - 1)"
      proof
        assume "\<exists>k<length (opt # opts). position ((opt # opts) ! k) = - 1"
        then obtain k where "k < length (opt # opts)" "position ((opt # opts) ! k) = - 1" by blast
        then show False using f False by (cases k) auto
      qed
      have res: "findOption_pos_loop (opt # opts) pos i acc = acc" using r ne f by simp
      show ?thesis by (simp only: if_not_P [OF nex] res)
    qed
  qed
qed

text \<open>
  Claim C3, as stated: among several options that could match a slot, the
  first-registered one wins. It fails on the code for two catch-all options: the loop
  overwrites \<open>positionalOpt\<close> at each option with position -1, so the one registered
  last is returned.
\<close>

theorem findOption_pos_first_catch_all_counterexample:
  "findOption_pos 1
     (add_vector string_t 1 '',,b'' [] (- 1)
        (add_vector string_t 0 '',,a'' [] (- 1) new_parser)) = Some 1"
  by (simp add: findOption_pos_def add_vector_def new_parser_def Option_ctor_def
      remove_prefix_def substr_def substr_from_def)

text \<open>
  Claim C3, amended: positional lookup resolves to the first-registered option whose
  \<open>position\<close> equals the slot if one exists, otherwise to the last-registered catch-all
  option (position -1) if one exists, otherwise to none.
\<close>

theorem findOption_pos_resolution:
  "(case findOption_pos pos p of
      Some i \<Rightarrow>
        i < length (m_options p)
        \<and> (if \<exists>k<length (m_options p). position (m_options p ! k) = pos
           then position (m_options p ! i) = pos
                \<and> (\<forall>j<i. position (m_options p ! j) \<noteq> pos)
           else position (m_options p ! i) = - 1
                \<and> (\<forall>j. i < j \<and> j < length (m_options p) \<longrightarrow> position (m_options p ! j) \<noteq> - 1))
    | None \<Rightarrow>
        (\<forall>k<length (m_options p). position (m_options p ! k) \<noteq> pos \<and> position (m_options p ! k) \<noteq> - 1))"
proof (cases "\<exists>k<length (m_options p). position (m_options p ! k) = pos")
  case True
  from findOption_pos_loop_exact [OF True, of 0 None] True
  show ?thesis by (auto simp: findOption_pos_def)
next
  case False
  then have "\<forall>k<length (m_options p). position (m_options p ! k) \<noteq> pos" by blast
  from findOption_pos_loop_no_exact [OF this, of 0 None] False
  show ?thesis by (auto simp: findOption_pos_def split: if_splits)
qed

theorem findOption_pos_resolution_witness:
  "findOption_pos 1 test_parser = Some 2
   \<and> 2 < length (m_options test_parser)
   \<and> position (m_options test_parser ! 2) = - 1"
proof -
  have r: "findOption_pos 1 test_parser = Some 2"
    by (simp add: findOption_pos_def test_parser_options)
  have p2: "position (m_options test_parser ! 2) = - 1"
    by (simp add: test_parser_options)
  from findOption_pos_resolution [where pos = 1 and p = test_parser] r p2
  show ?thesis by (simp split: if_splits)
qed

section \<open>Evaluation of the engine on concrete input\<close>

lemmas parse_eval = parse_def parse_loop.simps parse_arg_def parse_dash_def parse_bare_def
  parse_resolved_def parseOption_def set_parsed_def findOption_name_def findOption_char_def
  findOption_pos_def formatArgError_def argv_at_def basename_def remove_prefix_def substr_def
  substr_from_def Let_def from_chars_def is_digit_def digit_val_def

section \<open>Reads of argv\<close>

lemma parse_loop_returns:
  "1 \<le> argc \<Longrightarrow> 0 \<le> argNum \<Longrightarrow> argc \<le> int (length argv) \<Longrightarrow>
   parse_loop argc argv h argNum pos lo lu pm \<noteq> None"
proof (induction argc argv h argNum pos lo lu pm rule: parse_loop.induct)
  case (1 argc argv h argNum pos lo lu pm)
  show ?case
  proof (cases "argNum < argc")
    case False
    have "argv_at argv (argc - 1) \<noteq> None" using "1.prems" by (simp add: argv_at_def)
    with False show ?thesis
      by (auto simp: parse_loop.simps [of argc argv h argNum] split: option.splits)
  next
    case True
    then have "argv_at argv argNum = Some (argv ! nat argNum)"
      using "1.prems" by (simp add: argv_at_def)
    then obtain a where a: "argv_at argv argNum = Some a" ..
    show ?thesis
    proof (cases "parse_arg h a pos lo lu pm")
      case (Return r)
      with True a show ?thesis by (simp add: parse_loop.simps [of argc argv h argNum])
    next
      case (Continue pos' lo' lu' pm')
      from "1.IH" [OF True a Continue] "1.prems"
      have "parse_loop argc argv h (argNum + 1) pos' lo' lu' pm' \<noteq> None" by simp
      with True a Continue show ?thesis by (simp add: parse_loop.simps [of argc argv h argNum])
    qed
  qed
qed

text \<open>
  Claim C9: \<open>parse\<close> reads \<open>argv[0]\<close> before it looks at \<open>argc\<close>, so on an empty
  \<open>argv\<close> it reads out of bounds whatever \<open>argc\<close> is; when \<open>argc\<close> is at least 1 and
  \<open>argv\<close> holds at least \<open>argc\<close> strings, \<open>parse\<close> returns and no read of \<open>argv\<close> is
  out of bounds.
\<close>

theorem parse_argv_bounds:
  "(argv = [] \<longrightarrow> parse argc argv pm = None)
   \<and> (1 \<le> argc \<and> argc \<le> int (length argv) \<longrightarrow> parse argc argv pm \<noteq> None)"
proof (intro conjI impI)
  assume "argv = []"
  then show "parse argc argv pm = None" by (simp add: parse_def argv_at_def)
next
  assume h: "1 \<le> argc \<and> argc \<le> int (length argv)"
  then have "argv_at argv 0 = Some (argv ! 0)" by (auto simp: argv_at_def)
  with h show "parse argc argv pm \<noteq> None"
    by (simp add: parse_def Let_def parse_loop_returns)
qed

theorem parse_argv_bounds_witness:
  "parse 0 [] (test_parser, test_store) = None
   \<and> parse 2 [''prog'', ''-h''] (test_parser, test_store) \<noteq> None"
  using parse_argv_bounds [of "[]" 0 "(test_parser, test_store)"]
    parse_argv_bounds [of "[''prog'', ''-h'']" 2 "(test_parser, test_store)"]
  by simp

section \<open>The program name\<close>

lemma program_formatArgError [simp]: "m_program (formatArgError msg a p) = m_program p"
  by (simp add: formatArgError_def)

lemma program_set_parsed [simp]: "m_program (set_parsed i p) = m_program p"
  by (simp add: set_parsed_def)

lemma program_findOption_char [simp]: "m_program (snd (findOption_char c p)) = m_program p"
  by (simp add: findOption_char_def split: option.splits)

lemma program_findOption_name [simp]: "m_program (snd (findOption_name nm p)) = m_program p"
  by (simp add: findOption_name_def split: option.splits)

lemma program_parseOption [simp]:
  "m_program (fst (snd (parseOption i v (p, m)))) = m_program p"
  by (simp add: parseOption_def split: prod.splits)

lemma program_parse_bundle:
  "m_program (fst (snd (parse_bundle cs (p, m)))) = m_program p"
proof (induction cs arbitrary: p m)
  case Nil
  show ?case by simp
next
  case (Cons c cs)
  obtain found p' where f: "findOption_char c p = (found, p')" by (cases "findOption_char c p")
  then have p': "m_program p' = m_program p"
    using program_findOption_char [of c p] by simp
  show ?case using f p' Cons.IH by (simp split: option.splits)
qed

lemma program_parse_resolved:
  "m_program (step_parser (parse_resolved h a hv vl pos found m)) = m_program (snd found)"
proof (cases found)
  case (Pair opt p)
  show ?thesis
  proof (cases opt)
    case None
    with Pair show ?thesis by (simp add: parse_resolved_def)
  next
    case (Some i)
    obtain ok p' m' where po: "parseOption i vl (set_parsed i p, m) = (ok, p', m')"
      by (cases "parseOption i vl (set_parsed i p, m)")
    then have "m_program p' = m_program p"
      using program_parseOption [of i vl "set_parsed i p" m] by simp
    with Pair Some po show ?thesis by (simp add: parse_resolved_def)
  qed
qed

lemma program_parse_bare:
  "m_program (step_parser (parse_bare h a pos lo lu (p, m))) = m_program p"
proof -
  have po: "m_program p' = m_program p"
    if "parseOption i a (set_parsed i p, m) = (ok, p', m')" for i ok p' m'
    using program_parseOption [of i a "set_parsed i p" m] that by simp
  show ?thesis
    by (auto simp: parse_bare_def po split: option.splits prod.splits)
qed

lemma program_parse_dash:
  "m_program (step_parser (parse_dash h a pos (p, m))) = m_program p"
proof -
  have pb: "m_program q = m_program p" if "parse_bundle nm (p, m) = (ok, q, m2)" for nm ok q m2
    using program_parse_bundle [of nm p m] that by simp
  show ?thesis
    by (auto simp: parse_dash_def Let_def program_parse_resolved pb split: prod.splits)
qed

lemma program_parse_arg:
  "m_program (step_parser (parse_arg h a pos lo lu (p, m))) = m_program p"
  by (simp add: parse_arg_def program_parse_bare program_parse_dash)

lemma program_parse_loop:
  "parse_loop argc argv h argNum pos lo lu pm = Some (ok, p', m') \<Longrightarrow> m_program p' = m_program (fst pm)"
proof (induction argc argv h argNum pos lo lu pm rule: parse_loop.induct)
  case (1 argc argv h argNum pos lo lu pm)
  show ?case
  proof (cases "argNum < argc")
    case False
    with "1.prems" show ?thesis
      by (auto simp: parse_loop.simps [of argc argv h argNum] split: option.splits if_splits)
  next
    case True
    with "1.prems" obtain a where a: "argv_at argv argNum = Some a"
      by (auto simp: parse_loop.simps [of argc argv h argNum] split: option.splits)
    have pa: "m_program (step_parser (parse_arg h a pos lo lu pm)) = m_program (fst pm)"
      using program_parse_arg [of h a pos lo lu "fst pm" "snd pm"] by simp
    show ?thesis
    proof (cases "parse_arg h a pos lo lu pm")
      case (Return r)
      with "1.prems" True a pa show ?thesis
        by (auto simp: parse_loop.simps [of argc argv h argNum])
    next
      case (Continue pos' lo' lu' pm')
      with "1.prems" True a have "parse_loop argc argv h (argNum + 1) pos' lo' lu' pm' = Some (ok, p', m')"
        by (simp add: parse_loop.simps [of argc argv h argNum])
      from "1.IH" [OF True a Continue this] pa Continue show ?thesis by simp
    qed
  qed
qed

text \<open>
  Claim C10: when \<open>argc\<close> is at least 1 (and \<open>argv\<close> holds at least \<open>argc\<close>
  strings), \<open>parse\<close> after \<open>setProgram\<close> returns, the stored program name is then
  the basename of \<open>argv[0]\<close>, and \<open>parse\<close> without the call of \<open>setProgram\<close> returns
  the same result, the same parser object, hence the same \<open>getHelp\<close> text, and the
  same variables.
\<close>

theorem parse_overwrites_program:
  assumes "1 \<le> argc" "argc \<le> int (length argv)"
  shows "\<exists>ok p' m'. parse argc argv (setProgram nm p, m) = Some (ok, p', m')
           \<and> m_program p' = basename (argv ! 0)
           \<and> parse argc argv (p, m) = Some (ok, p', m')"
proof -
  have same: "parse argc argv (setProgram nm p, m) = parse argc argv (p, m)"
    by (simp add: parse_def setProgram_def Let_def split: option.splits)
  from assms have a0: "argv_at argv 0 = Some (argv ! 0)" by (auto simp: argv_at_def)
  with assms have "parse argc argv (p, m) \<noteq> None"
    by (simp add: parse_def Let_def parse_loop_returns)
  then obtain ok p' m' where r: "parse argc argv (p, m) = Some (ok, p', m')"
    by (cases "parse argc argv (p, m)") auto
  with a0 have pn: "m_program p' = basename (argv ! 0)"
    by (auto simp: parse_def Let_def dest: program_parse_loop)
  with r same show ?thesis by simp
qed

theorem parse_overwrites_program_witness:
  "\<exists>p' m'. parse 2 [''/usr/bin/prog'', ''-h''] (setProgram ''tool'' test_parser, test_store)
              = Some (True, p', m')
     \<and> m_program p' = ''prog''
     \<and> parse 2 [''/usr/bin/prog'', ''-h''] (test_parser, test_store) = Some (True, p', m')"
proof -
  have ok: "map_option fst
      (parse 2 [''/usr/bin/prog'', ''-h''] (setProgram ''tool'' test_parser, test_store))
      = Some True"
    by (simp add: parse_eval setProgram_def test_parser_options test_parser_fields)
  have b: "basename ''/usr/bin/prog'' = ''prog''"
    by (simp add: basename_def substr_from_def)
  from parse_overwrites_program [where argc = 2 and argv = "[''/usr/bin/prog'', ''-h'']"
      and nm = "''tool''" and p = test_parser and m = test_store] b ok
  show ?thesis by auto
qed

section \<open>Single passes of the loop\<close>

lemma sv_find_None: "(sv_find s c = None) = (c \<notin> set s)"
  by (induction s) (auto split: option.splits)

lemma sv_find_append: "c \<notin> set s \<Longrightarrow> sv_find (s @ c # t) c = Some (length s)"
  by (induction s) auto

lemma parse_arg_dash:
  "parse_arg h (CHR ''-'' # t) pos lo lu pm = parse_dash h (CHR ''-'' # t) pos pm"
  by (simp add: parse_arg_def)

lemma parse_arg_bare:
  "tok \<noteq> [] \<Longrightarrow> hd tok \<noteq> CHR ''-'' \<Longrightarrow>
   parse_arg h tok pos lo lu pm = parse_bare h tok pos lo lu pm"
  by (cases tok) (simp_all add: parse_arg_def)

lemma parse_dash_long:
  assumes "nm \<noteq> []" "CHR ''='' \<notin> set nm"
  shows "parse_dash h (''--'' @ nm) pos (p, m)
         = parse_resolved h (''--'' @ nm) False [] pos (findOption_name nm p) m"
  using assms sv_find_None [of nm "CHR ''=''"]
  by (simp add: parse_dash_def remove_prefix_def)

lemma parse_dash_long_value:
  assumes "nm \<noteq> []" "CHR ''='' \<notin> set nm"
  shows "parse_dash h (''--'' @ nm @ CHR ''='' # v) pos (p, m)
         = parse_resolved h (''--'' @ nm @ CHR ''='' # v) True v pos (findOption_name nm p) m"
proof -
  from assms obtain x xs where nm: "nm = x # xs" by (cases nm) auto
  have f: "sv_find (nm @ CHR ''='' # v) (CHR ''='') = Some (length nm)"
    using assms by (simp add: sv_find_append)
  have ne: "length nm \<noteq> 0" using assms by simp
  show ?thesis using f ne
    by (simp add: parse_dash_def remove_prefix_def substr_def substr_from_def Let_def)
qed

lemma parse_dash_short:
  assumes "c \<noteq> CHR ''-''" "c \<noteq> CHR ''=''"
  shows "parse_dash h [CHR ''-'', c] pos (p, m)
         = parse_resolved h [CHR ''-'', c] False [] pos (findOption_char c p) m"
  using assms by (simp add: parse_dash_def remove_prefix_def)

lemma parse_loop_step:
  assumes "argNum < argc" "argv_at argv argNum = Some tok"
  shows "parse_loop argc argv h argNum pos lo lu pm =
     (case parse_arg h tok pos lo lu pm of
        Return r \<Rightarrow> Some r
      | Continue pos' lo' lu' pm' \<Rightarrow> parse_loop argc argv h (argNum + 1) pos' lo' lu' pm')"
  using assms by (simp add: parse_loop.simps [of argc argv h argNum])

lemma parse_loop_end:
  assumes "\<not> argNum < argc"
  shows "parse_loop argc argv h argNum pos lo lu pm =
     (case lo of
        None \<Rightarrow> Some (True, pm)
      | Some l \<Rightarrow>
          if parsed (m_options (fst pm) ! l) then Some (True, pm)
          else (case argv_at argv (argc - 1) of
                  None \<Rightarrow> None
                | Some a \<Rightarrow>
                    Some (False, formatArgError ''option requires value'' a (fst pm), snd pm)))"
  using assms by (simp add: parse_loop.simps [of argc argv h argNum])

text \<open>
  Claim C6, as stated: an input whose last token names a value option, with no inline
  value, makes \<open>parse\<close> fail. It fails on the code when the option was given a value
  before: the final test is \<open>!lastOption || lastOption->parsed\<close>, and \<open>parse\<close> returns
  success with an empty error text.
\<close>

theorem value_option_repeated_counterexample:
  "map_option fst
     (parse 3 [''prog'', ''--compression=5'', ''--compression''] (test_parser, test_store))
     = Some True
   \<and> map_option (m_error \<circ> fst \<circ> snd)
       (parse 3 [''prog'', ''--compression=5'', ''--compression''] (test_parser, test_store))
     = Some []"
  by (simp add: parse_eval test_parser_options test_parser_fields test_store_def)

text \<open>
  Claim C6, amended: when the loop reaches the last token of the input, and this token
  names a value-expecting (non-Flag) option by its long name or by a short flag, with
  no inline value, then \<open>parse\<close> returns failure, with the error text extended by
  \<open>option requires value: \<close> and the last token, if the option is not marked
  \<open>parsed\<close> at that point, and returns success if it is. \<open>parse\<close> is \<open>parse_loop\<close>
  from \<open>argNum = 1\<close>; the parser object, the variables and the locals are those of the
  pass that reads the last token.
\<close>

theorem value_option_last_token:
  assumes last: "argNum = argc - 1" "argv_at argv argNum = Some tok"
    and names: "(tok = ''--'' @ nm \<and> nm \<noteq> [] \<and> CHR ''='' \<notin> set nm
                  \<and> findOption_name nm p = (Some i, p))
              \<or> (tok = [CHR ''-'', c] \<and> c \<noteq> CHR ''-'' \<and> c \<noteq> CHR ''=''
                  \<and> findOption_char c p = (Some i, p))"
    and kind: "type (m_options p ! i) \<noteq> flag"
  shows "parse_loop argc argv h argNum pos lo lu (p, m) =
           (if parsed (m_options p ! i) then Some (True, p, m)
            else Some (False, p\<lparr>m_error := m_error p @ ''option requires value: '' @ tok\<rparr>, m))"
proof -
  have d: "parse_arg h tok pos lo lu (p, m) = Continue pos (Some i) False (p, m)"
    using names
  proof
    assume a: "tok = ''--'' @ nm \<and> nm \<noteq> [] \<and> CHR ''='' \<notin> set nm
                  \<and> findOption_name nm p = (Some i, p)"
    then have "parse_arg h tok pos lo lu (p, m) = parse_dash h (''--'' @ nm) pos (p, m)"
      by (simp add: parse_arg_def)
    with a kind show ?thesis
      by (simp add: parse_dash_long parse_resolved_def del: append.simps)
  next
    assume a: "tok = [CHR ''-'', c] \<and> c \<noteq> CHR ''-'' \<and> c \<noteq> CHR ''=''
                  \<and> findOption_char c p = (Some i, p)"
    then have "parse_arg h tok pos lo lu (p, m) = parse_dash h [CHR ''-'', c] pos (p, m)"
      by (simp add: parse_arg_def)
    with a kind show ?thesis
      by (simp add: parse_dash_short parse_resolved_def)
  qed
  have lt: "argNum < argc" "\<not> argNum + 1 < argc" using last by simp_all
  have e: "argv_at argv (argc - 1) = Some tok" using last by simp
  show ?thesis
    by (simp add: parse_loop_step [OF lt(1) last(2)] d parse_loop_end [OF lt(2)] e
        formatArgError_def)
qed

theorem value_option_last_token_witness:
  "parse 2 [''prog'', ''--compression''] (test_parser, test_store)
     = Some (False,
             test_parser\<lparr>m_program := ''prog'',
                          m_error := ''option requires value: --compression''\<rparr>,
             test_store)"
proof -
  let ?p = "test_parser\<lparr>m_program := ''prog''\<rparr>"
  have f: "findOption_name ''compression'' ?p = (Some 1, ?p)"
    by (simp add: findOption_name_def test_parser_options)
  have k: "type (m_options ?p ! 1) \<noteq> flag" "\<not> parsed (m_options ?p ! 1)"
    by (simp_all add: test_parser_options)
  have a: "argv_at [''prog'', ''--compression''] 1 = Some ''--compression''"
    by (simp add: argv_at_def)
  have "parse_loop 2 [''prog'', ''--compression''] True 1 0 None False (?p, test_store)
      = Some (False, ?p\<lparr>m_error := m_error ?p @ ''option requires value: '' @ ''--compression''\<rparr>, test_store)"
    using value_option_last_token [where argc = 2 and argNum = 1 and tok = "''--compression''"
        and nm = "''compression''" and p = ?p and i = 1 and argv = "[''prog'', ''--compression'']"
        and h = True and pos = 0 and lo = None and lu = False and m = test_store] f k a
    by simp
  then show ?thesis
    by (simp add: parse_def argv_at_def basename_def test_parser_options test_parser_fields)
qed

section \<open>Bundles of short flags\<close>

lemma parsed_set_parsed: "i < length (m_options p) \<Longrightarrow> parsed (m_options (set_parsed i p) ! i)"
  by (simp add: set_parsed_def)

lemma parsed_set_parsed_mono:
  "parsed (m_options q ! k) \<Longrightarrow> parsed (m_options (set_parsed j q) ! k)"
  by (cases "j < length (m_options q)"; cases "k = j")
     (simp_all add: set_parsed_def list_update_beyond)

lemma first_index_bound: "first_index c opts k = Some i \<Longrightarrow> k \<le> i \<and> i < k + length opts"
  by (induction opts arbitrary: k) (force split: if_splits)+

lemma first_index_flags_cong:
  "map flags opts = map flags opts' \<Longrightarrow>
   first_index (\<lambda>opt. Q (flags opt)) opts k = first_index (\<lambda>opt. Q (flags opt)) opts' k"
proof (induction opts arbitrary: opts' k)
  case Nil
  then show ?case by simp
next
  case (Cons o1 opts)
  then obtain o2 rest where "opts' = o2 # rest" by (cases opts') auto
  with Cons show ?case by auto
qed

lemma same_shape_refl [simp]: "same_shape p p"
  by (simp add: same_shape_def)

lemma map_update_same:
  "(\<And>x. f (g x) = f x) \<Longrightarrow> map f (xs[i := g (xs ! i)]) = map f xs"
  by (induction xs arbitrary: i) (auto split: nat.splits)

lemma same_shape_set_parsed: "same_shape q p \<Longrightarrow> same_shape (set_parsed i q) p"
  by (simp add: same_shape_def set_parsed_def map_update_same [where g = "\<lambda>x. x\<lparr>parsed := True\<rparr>"])

lemma same_shape_lookup: "same_shape q p \<Longrightarrow> short_lookup c q = short_lookup c p"
  unfolding short_lookup_def same_shape_def
  using first_index_flags_cong [of "m_options q" "m_options p" "\<lambda>f. sv_find f c \<noteq> None" 0]
  by simp

lemma same_shape_type:
  assumes "same_shape q p" "short_lookup c p = Some i"
  shows "type (m_options q ! i) = type (m_options p ! i)"
proof -
  from assms(2) have i: "i < length (m_options p)"
    using first_index_bound [of _ "m_options p" 0 i] by (simp add: short_lookup_def)
  from assms(1) have eq: "map type (m_options q) = map type (m_options p)"
    by (simp add: same_shape_def)
  then have "length (m_options q) = length (m_options p)" by (metis length_map)
  with i eq show ?thesis by (metis nth_map)
qed

lemma findOption_char_lookup:
  "findOption_char c q =
     (case short_lookup c q of
        Some i \<Rightarrow> (Some i, q)
      | None \<Rightarrow> (None, if \<not> m_skipUnknown q
                         then q\<lparr>m_error := ''unknown option: -'' @ [c]\<rparr> else q))"
  by (simp add: findOption_char_def short_lookup_def)

lemma fst_findOption_char: "fst (findOption_char c q) = short_lookup c q"
  by (simp add: findOption_char_lookup split: option.splits)

lemma parse_bundle_non_flag:
  assumes pre: "\<forall>x\<in>set pre. (case short_lookup x p of
                    Some j \<Rightarrow> type (m_options p ! j) = flag | None \<Rightarrow> m_skipUnknown p)"
    and c: "short_lookup c p = Some i" "type (m_options p ! i) \<noteq> flag"
    and q: "same_shape q p"
  shows "\<exists>q' m'. parse_bundle (pre @ c # post) (q, m) = (False, q', m')
           \<and> m_error q' = ''option requires value: '' @ [c]"
  using pre q
proof (induction pre arbitrary: q m)
  case Nil
  have "short_lookup c q = Some i" using c Nil.prems(2) by (simp add: same_shape_lookup)
  moreover have "type (m_options q ! i) \<noteq> flag"
    using same_shape_type [OF Nil.prems(2) c(1)] c(2) by simp
  ultimately show ?case by (simp add: findOption_char_lookup)
next
  case (Cons x pre)
  have lx: "short_lookup x q = short_lookup x p"
    using Cons.prems(2) by (simp add: same_shape_lookup)
  have sk: "m_skipUnknown q = m_skipUnknown p" using Cons.prems(2) by (simp add: same_shape_def)
  have rest: "\<forall>x\<in>set pre. (case short_lookup x p of
                    Some j \<Rightarrow> type (m_options p ! j) = flag | None \<Rightarrow> m_skipUnknown p)"
    using Cons.prems(1) by simp
  show ?case
  proof (cases "short_lookup x p")
    case None
    with Cons.prems(1) have "m_skipUnknown p" by simp
    with None lx sk Cons.IH [OF rest Cons.prems(2), of m] show ?thesis
      by (simp add: findOption_char_lookup)
  next
    case (Some j)
    with Cons.prems(1) have "type (m_options p ! j) = flag" by simp
    then have tq: "type (m_options q ! j) = flag"
      using same_shape_type [OF Cons.prems(2) Some] by simp
    from Cons.IH [OF rest same_shape_set_parsed [OF Cons.prems(2)]]
    show ?thesis using Some lx tq by (simp add: findOption_char_lookup)
  qed
qed

lemma parse_bundle_flags:
  assumes "\<forall>x\<in>set cs. (case short_lookup x p of
                    Some j \<Rightarrow> type (m_options p ! j) = flag | None \<Rightarrow> m_skipUnknown p)"
    and "same_shape q p"
  shows "\<exists>q' m'. parse_bundle cs (q, m) = (True, q', m') \<and> same_shape q' p
           \<and> (\<forall>k. parsed (m_options q ! k) \<longrightarrow> parsed (m_options q' ! k))
           \<and> (\<forall>x\<in>set cs. \<forall>j. short_lookup x p = Some j \<longrightarrow> parsed (m_options q' ! j))"
  using assms
proof (induction cs arbitrary: q m)
  case Nil
  then show ?case by simp
next
  case (Cons x cs)
  have lx: "short_lookup x q = short_lookup x p"
    using Cons.prems(2) by (simp add: same_shape_lookup)
  have sk: "m_skipUnknown q = m_skipUnknown p" using Cons.prems(2) by (simp add: same_shape_def)
  have rest: "\<forall>x\<in>set cs. (case short_lookup x p of
                    Some j \<Rightarrow> type (m_options p ! j) = flag | None \<Rightarrow> m_skipUnknown p)"
    using Cons.prems(1) by simp
  show ?case
  proof (cases "short_lookup x p")
    case None
    with Cons.prems(1) have skp: "m_skipUnknown p" by simp
    from Cons.IH [OF rest Cons.prems(2), of m] obtain q' m' where
      r: "parse_bundle cs (q, m) = (True, q', m')" "same_shape q' p"
        "\<forall>k. parsed (m_options q ! k) \<longrightarrow> parsed (m_options q' ! k)"
        "\<forall>x\<in>set cs. \<forall>j. short_lookup x p = Some j \<longrightarrow> parsed (m_options q' ! j)"
      by blast
    have "parse_bundle (x # cs) (q, m) = (True, q', m')"
      using None lx sk skp r(1) by (simp add: findOption_char_lookup)
    with r None show ?thesis by auto
  next
    case (Some j)
    with Cons.prems(1) have "type (m_options p ! j) = flag" by simp
    then have tq: "type (m_options q ! j) = flag"
      using same_shape_type [OF Cons.prems(2) Some] by simp
    have jlen: "j < length (m_options q)"
    proof -
      from Some have "j < length (m_options p)"
        using first_index_bound [of _ "m_options p" 0 j] by (simp add: short_lookup_def)
      moreover have "length (m_options q) = length (m_options p)"
        using Cons.prems(2) by (metis same_shape_def length_map)
      ultimately show ?thesis by simp
    qed
    let ?q1 = "set_parsed j q"
    let ?m1 = "snd (call (parseFn (m_options q ! j)) (valuePtr (m_options q ! j)) [] m)"
    from Cons.IH [OF rest same_shape_set_parsed [OF Cons.prems(2)], of j ?m1] obtain q' m' where
      r: "parse_bundle cs (?q1, ?m1) = (True, q', m')" "same_shape q' p"
        "\<forall>k. parsed (m_options ?q1 ! k) \<longrightarrow> parsed (m_options q' ! k)"
        "\<forall>x\<in>set cs. \<forall>j. short_lookup x p = Some j \<longrightarrow> parsed (m_options q' ! j)"
      by blast
    have pb: "parse_bundle (x # cs) (q, m) = (True, q', m')"
      using Some lx tq r(1) by (simp add: findOption_char_lookup)
    have pj: "parsed (m_options q' ! j)"
      using r(3) parsed_set_parsed [OF jlen] by simp
    have mono: "\<forall>k. parsed (m_options q ! k) \<longrightarrow> parsed (m_options q' ! k)"
      using r(3) parsed_set_parsed_mono by blast
    show ?thesis using pb r(2) mono pj r(4) Some by auto
  qed
qed

text \<open>
  Claim C5: when the loop reaches a short token (one leading \<open>-\<close>) whose name, the
  part before any \<open>=\<close>, has more than one character: if the token carries an
  \<open>=value\<close> suffix, \<open>parse\<close> fails with the error \<open>flag/argument mix disallowed\<close>;
  otherwise the characters are looked up from left to right as short flags, and at the
  first character \<open>c\<close> that resolves to an option that is not a Flag (the characters
  before it resolve to Flags, or are unknown and skipped) \<open>parse\<close> fails with the
  error \<open>option requires value: c\<close>. When every character resolves to a Flag (or is
  unknown and skipped), the pass ends with all these Flags marked \<open>parsed\<close> and no
  option pending.
\<close>

theorem short_bundle_errors:
  assumes tok: "argNum < argc" "argv_at argv argNum = Some (CHR ''-'' # body)"
  shows "(body = nm @ CHR ''='' # v \<and> CHR ''='' \<notin> set nm \<and> 2 \<le> length nm \<and> hd nm \<noteq> CHR ''-''
            \<longrightarrow> parse_loop argc argv h argNum pos lo lu (p, m) =
                  Some (False,
                        p\<lparr>m_error := m_error p @ ''flag/argument mix disallowed: ''
                                        @ CHR ''-'' # body\<rparr>, m))
       \<and> (CHR ''='' \<notin> set body \<and> 2 \<le> length body \<and> hd body \<noteq> CHR ''-''
            \<and> body = pre @ c # post
            \<and> (\<forall>x\<in>set pre. (case fst (findOption_char x p) of
                    Some j \<Rightarrow> type (m_options p ! j) = flag | None \<Rightarrow> m_skipUnknown p))
            \<and> fst (findOption_char c p) = Some i \<and> type (m_options p ! i) \<noteq> flag
            \<longrightarrow> (\<exists>p' m'. parse_loop argc argv h argNum pos lo lu (p, m) = Some (False, p', m')
                   \<and> m_error p' = ''option requires value: '' @ [c]))
       \<and> (CHR ''='' \<notin> set body \<and> 2 \<le> length body \<and> hd body \<noteq> CHR ''-''
            \<and> (\<forall>x\<in>set body. (case fst (findOption_char x p) of
                    Some j \<Rightarrow> type (m_options p ! j) = flag | None \<Rightarrow> m_skipUnknown p))
            \<longrightarrow> (\<exists>p' m'. parse_arg h (CHR ''-'' # body) pos lo lu (p, m)
                            = Continue pos None False (p', m')
                   \<and> (\<forall>x\<in>set body. \<forall>j. fst (findOption_char x p) = Some j
                          \<longrightarrow> parsed (m_options p' ! j))))"
proof (intro conjI impI)
  assume a: "body = nm @ CHR ''='' # v \<and> CHR ''='' \<notin> set nm \<and> 2 \<le> length nm \<and> hd nm \<noteq> CHR ''-''"
  then have nmne: "nm \<noteq> []" by auto
  have b: "body \<noteq> []" "body ! 0 \<noteq> CHR ''-''"
    using a nmne by (simp, cases nm) auto
  have f: "sv_find body (CHR ''='') = Some (length nm)" using a by (simp add: sv_find_append)
  have n: "length nm \<noteq> 0" "length (substr body 0 (length nm)) \<noteq> 1"
    using a nmne by (auto simp: substr_def)
  have "parse_dash h (CHR ''-'' # body) pos (p, m) =
      Return (False, formatArgError ''flag/argument mix disallowed'' (CHR ''-'' # body) p, m)"
    using b f n by (simp add: parse_dash_def remove_prefix_def Let_def)
  then show "parse_loop argc argv h argNum pos lo lu (p, m) =
                  Some (False,
                        p\<lparr>m_error := m_error p @ ''flag/argument mix disallowed: ''
                                        @ CHR ''-'' # body\<rparr>, m)"
    by (simp add: parse_loop_step [OF tok] parse_arg_dash formatArgError_def)
next
  assume "CHR ''='' \<notin> set body \<and> 2 \<le> length body \<and> hd body \<noteq> CHR ''-''
            \<and> body = pre @ c # post
            \<and> (\<forall>x\<in>set pre. (case fst (findOption_char x p) of
                    Some j \<Rightarrow> type (m_options p ! j) = flag | None \<Rightarrow> m_skipUnknown p))
            \<and> fst (findOption_char c p) = Some i \<and> type (m_options p ! i) \<noteq> flag"
  then have a: "CHR ''='' \<notin> set body \<and> 2 \<le> length body \<and> hd body \<noteq> CHR ''-''
            \<and> body = pre @ c # post
            \<and> (\<forall>x\<in>set pre. (case short_lookup x p of
                    Some j \<Rightarrow> type (m_options p ! j) = flag | None \<Rightarrow> m_skipUnknown p))
            \<and> short_lookup c p = Some i \<and> type (m_options p ! i) \<noteq> flag"
    unfolding fst_findOption_char .
  then have a1: "CHR ''='' \<notin> set body" and a2: "2 \<le> length body"
    and a3: "hd body \<noteq> CHR ''-''" and a4: "body = pre @ c # post"
    and a5: "\<forall>x\<in>set pre. (case short_lookup x p of
                    Some j \<Rightarrow> type (m_options p ! j) = flag | None \<Rightarrow> m_skipUnknown p)"
    and a6: "short_lookup c p = Some i" and a7: "type (m_options p ! i) \<noteq> flag"
    by blast+
  from a2 have bne: "body \<noteq> []" by auto
  have b: "body \<noteq> []" "body ! 0 \<noteq> CHR ''-''"
    using a3 bne by (simp_all add: hd_conv_nth)
  from a1 have f: "sv_find body (CHR ''='') = None" by (simp add: sv_find_None)
  obtain p' m' where r: "parse_bundle body (p, m) = (False, p', m')"
      "m_error p' = ''option requires value: '' @ [c]"
    using parse_bundle_non_flag [OF a5 a6 a7 same_shape_refl, of post m] a4 by auto
  have len: "length body \<noteq> 1" using a2 by simp
  have "parse_dash h (CHR ''-'' # body) pos (p, m) = Return (False, p', m')"
    using b f r(1) len by (simp add: parse_dash_def remove_prefix_def Let_def)
  with r(2) show "\<exists>p' m'. parse_loop argc argv h argNum pos lo lu (p, m) = Some (False, p', m')
                   \<and> m_error p' = ''option requires value: '' @ [c]"
    by (simp add: parse_loop_step [OF tok] parse_arg_dash)
next
  assume "CHR ''='' \<notin> set body \<and> 2 \<le> length body \<and> hd body \<noteq> CHR ''-''
            \<and> (\<forall>x\<in>set body. (case fst (findOption_char x p) of
                    Some j \<Rightarrow> type (m_options p ! j) = flag | None \<Rightarrow> m_skipUnknown p))"
  then have a: "CHR ''='' \<notin> set body \<and> 2 \<le> length body \<and> hd body \<noteq> CHR ''-''
            \<and> (\<forall>x\<in>set body. (case short_lookup x p of
                    Some j \<Rightarrow> type (m_options p ! j) = flag | None \<Rightarrow> m_skipUnknown p))"
    unfolding fst_findOption_char .
  then have a1: "CHR ''='' \<notin> set body" and a2: "2 \<le> length body"
    and a3: "hd body \<noteq> CHR ''-''"
    and a5: "\<forall>x\<in>set body. (case short_lookup x p of
                    Some j \<Rightarrow> type (m_options p ! j) = flag | None \<Rightarrow> m_skipUnknown p)"
    by blast+
  from a2 have bne: "body \<noteq> []" by auto
  have b: "body \<noteq> []" "body ! 0 \<noteq> CHR ''-''"
    using a3 bne by (simp_all add: hd_conv_nth)
  from a1 have f: "sv_find body (CHR ''='') = None" by (simp add: sv_find_None)
  have len: "length body \<noteq> 1" using a2 by simp
  from parse_bundle_flags [OF a5 same_shape_refl, of m] obtain p' m' where
    r: "parse_bundle body (p, m) = (True, p', m')"
      "\<forall>x\<in>set body. \<forall>j. short_lookup x p = Some j \<longrightarrow> parsed (m_options p' ! j)"
    by blast
  have "parse_dash h (CHR ''-'' # body) pos (p, m) = Continue pos None False (p', m')"
    using b f r(1) len by (simp add: parse_dash_def remove_prefix_def Let_def)
  with r(2) show "\<exists>p' m'. parse_arg h (CHR ''-'' # body) pos lo lu (p, m)
                            = Continue pos None False (p', m')
                   \<and> (\<forall>x\<in>set body. \<forall>j. fst (findOption_char x p) = Some j
                          \<longrightarrow> parsed (m_options p' ! j))"
    unfolding fst_findOption_char by (simp add: parse_arg_dash)
qed

theorem short_bundle_errors_witness:
  "parse 2 [''prog'', ''-hh=1''] (test_parser, test_store)
     = Some (False,
             test_parser\<lparr>m_program := ''prog'',
                          m_error := ''flag/argument mix disallowed: -hh=1''\<rparr>, test_store)
   \<and> (\<exists>p' m'. parse 2 [''prog'', ''-hc''] (test_parser, test_store) = Some (False, p', m')
         \<and> m_error p' = ''option requires value: c'')
   \<and> (\<exists>p' m'. parse_arg True ''-hh'' 0 None False
                   (test_parser\<lparr>m_program := ''prog''\<rparr>, test_store)
                 = Continue 0 None False (p', m')
         \<and> parsed (m_options p' ! 0))"
proof -
  let ?p = "test_parser\<lparr>m_program := ''prog''\<rparr>"
  have lk: "fst (findOption_char (CHR ''h'') ?p) = Some 0"
    "fst (findOption_char (CHR ''c'') ?p) = Some 1"
    by (simp_all add: findOption_char_def test_parser_options)
  have ty: "type (m_options ?p ! 0) = flag" "type (m_options ?p ! 1) \<noteq> flag"
    by (simp_all add: test_parser_options)
  have p1: "parse 2 [''prog'', t] (test_parser, test_store)
      = parse_loop 2 [''prog'', t] True 1 0 None False (?p, test_store)" for t
    by (simp add: parse_def argv_at_def basename_def test_parser_options)
  have a: "(1::int) < 2" "argv_at [''prog'', t] 1 = Some t" for t
    by (simp_all add: argv_at_def)
  from short_bundle_errors [OF a(1) a(2) [of "CHR ''-'' # ''hh=1''"],
      where nm = "''hh''" and v = "''1''" and h = True and pos = 0 and lo = None and lu = False
        and p = ?p and m = test_store]
  have w1: "parse 2 [''prog'', ''-hh=1''] (test_parser, test_store)
     = Some (False, test_parser\<lparr>m_program := ''prog'',
                          m_error := ''flag/argument mix disallowed: -hh=1''\<rparr>, test_store)"
    by (simp add: p1 test_parser_fields)
  from short_bundle_errors [OF a(1) a(2) [of "CHR ''-'' # ''hc''"],
      where pre = "''h''" and c = "CHR ''c''" and post = "[]" and i = 1 and h = True and pos = 0
        and lo = None and lu = False and p = ?p and m = test_store] lk ty
  have w2: "\<exists>p' m'. parse 2 [''prog'', ''-hc''] (test_parser, test_store) = Some (False, p', m')
         \<and> m_error p' = ''option requires value: c''"
    by (simp add: p1)
  from short_bundle_errors [OF a(1) a(2) [of "CHR ''-'' # ''hh''"],
      where h = True and pos = 0 and lo = None and lu = False and p = ?p and m = test_store]
    lk ty
  have w3: "\<exists>p' m'. parse_arg True ''-hh'' 0 None False (?p, test_store)
                 = Continue 0 None False (p', m')
         \<and> parsed (m_options p' ! 0)"
    by auto
  from w1 w2 w3 show ?thesis by simp
qed

section \<open>The parsed mark and conversion errors\<close>



lemma options_formatArgError [simp]: "m_options (formatArgError msg a p) = m_options p"
  by (simp add: formatArgError_def)


lemma options_findOption_name [simp]: "m_options (snd (findOption_name nm p)) = m_options p"
  by (simp add: findOption_name_def split: option.splits)












lemma fold_apply_length:
  "fold apply_value ivs (opts, m) = (opts', m') \<Longrightarrow> length opts' = length opts"
  by (induction ivs arbitrary: opts m) (auto simp: apply_value_def)





section \<open>Registration and help text\<close>

lemma Option_ctor_round_trip:
  "Option_ctor t a f ''+name,x,HINT'' hlp pos =
     \<lparr>type = t, parsed = False, required = True, valuePtr = a, parseFn = f,
      name = ''name'', flags = ''x'', helpText = hlp, hint = ''HINT'', position = pos\<rparr>"
  by (simp add: Option_ctor_def Let_def remove_prefix_def substr_def substr_from_def)

lemma parse_T_fst: "fst (parse_T T s v) = fst (parse_T T s v')"
  by (induction T arbitrary: v v') (auto split: prod.splits)

lemma call_ok:
  assumes "f = parseValue T \<or> f = parseList T" "fst (parse_T T s (default_val T))"
  shows "fst (call f a s m)"
  using assms parse_T_fst [of T s "m a" "default_val T"]
  by (auto split: prod.splits)

text \<open>
  Claim C8: an option registered by \<open>add\<close>, for a scalar or a vector variable, with the
  specification \<open>+name,x,HINT\<close> is required; after \<open>parse\<close> of \<open>--name=1\<close>, where
  \<open>1\<close> converts to the type of the variable, it is marked \<open>parsed\<close>, \<open>checkRequired\<close>
  succeeds, and the help text lists the option as \<open>-x [ --name ] HINT\<close>.
\<close>

theorem spec_round_trip:
  assumes reg: "p = add T a ''+name,x,HINT'' hlp pos new_parser
              \<or> p = add_vector T a ''+name,x,HINT'' hlp pos new_parser"
    and conv: "fst (parse_T T ''1'' (default_val T))"
  shows "\<exists>p' m'. parse 2 [prog, ''--name=1''] (p, m) = Some (True, p', m')
           \<and> required (m_options p' ! 0) \<and> parsed (m_options p' ! 0)
           \<and> fst (checkRequired p')
           \<and> getHelp p' =
               ''usage: '' @ basename prog @ '' [options]'' @ [newline]
               @ ''allowed options:'' @ [newline]
               @ ''  '' @ ''-x [ --name ] HINT''
               @ (if hlp = [] then [] else '' : '' @ hlp) @ [newline]
           \<and> (\<exists>pre post. getHelp p' = pre @ ''-x [ --name ] HINT'' @ post)"
proof -
  from reg obtain t f where
    p: "p = new_parser\<lparr>m_options := [Option_ctor t a f ''+name,x,HINT'' hlp pos]\<rparr>"
    and tf: "(t = param \<and> f = parseValue T) \<or> (t = list \<and> f = parseList T)"
    by (auto simp: add_def add_vector_def new_parser_def)
  from tf conv have ok: "fst (call f a ''1'' m)" by (auto intro: call_ok)
  then obtain m' where c: "call f a ''1'' m = (True, m')" by (cases "call f a ''1'' m") auto
  from tf have nf: "t \<noteq> flag" by auto
  let ?opt = "\<lparr>type = t, parsed = True, required = True, valuePtr = a, parseFn = f,
      name = ''name'', flags = ''x'', helpText = hlp, hint = ''HINT'', position = pos\<rparr>"
  let ?p' = "\<lparr>m_program = basename prog, m_skipUnknown = False, m_options = [?opt], m_error = []\<rparr>"
  have r: "parse 2 [prog, ''--name=1''] (p, m) = Some (True, ?p', m')"
    using c nf
    by (simp add: p Option_ctor_round_trip new_parser_def parse_def argv_at_def
        parse_loop.simps parse_arg_def parse_dash_def parse_resolved_def parseOption_def
        set_parsed_def findOption_name_def remove_prefix_def substr_def substr_from_def Let_def)
  have h: "getHelp ?p' =
               ''usage: '' @ basename prog @ '' [options]'' @ [newline]
               @ ''allowed options:'' @ [newline]
               @ ''  '' @ ''-x [ --name ] HINT''
               @ (if hlp = [] then [] else '' : '' @ hlp) @ [newline]"
    using nf by (simp add: getHelp_def getHelp_line_def formatOptName_def Let_def)
  have q: "fst (checkRequired ?p')" by (simp add: checkRequired_def)
  have sub: "\<exists>pre post. getHelp ?p' = pre @ ''-x [ --name ] HINT'' @ post"
    unfolding h
    by (intro exI [of _ "''usage: '' @ basename prog @ '' [options]'' @ [newline]
          @ ''allowed options:'' @ [newline] @ ''  ''"]
        exI [of _ "(if hlp = [] then [] else '' : '' @ hlp) @ [newline]"]) simp
  show ?thesis using r h q sub by (intro exI [of _ ?p'] exI [of _ m']) simp
qed

theorem spec_round_trip_witness:
  "\<exists>p' m'. parse 2 [''prog'', ''--name=1'']
               (add (arith_t (Signed 32)) 1 ''+name,x,HINT'' ''the name'' 0 new_parser,
                test_store)
             = Some (True, p', m')
     \<and> required (m_options p' ! 0) \<and> parsed (m_options p' ! 0)
     \<and> fst (checkRequired p')
     \<and> getHelp p' =
          ''usage: prog [options]'' @ [newline] @ ''allowed options:'' @ [newline]
          @ ''  -x [ --name ] HINT : the name'' @ [newline]"
proof -
  have c: "fst (parse_T (arith_t (Signed 32)) ''1'' (default_val (arith_t (Signed 32))))"
    by (simp add: from_chars_def is_digit_def digit_val_def)
  have b: "basename ''prog'' = ''prog''" by (simp add: basename_def)
  from spec_round_trip [where T = "arith_t (Signed 32)" and a = 1 and hlp = "''the name''"
      and pos = 0 and prog = "''prog''" and m = test_store, OF disjI1 [OF refl] c]
  show ?thesis by (auto simp: b)
qed

section \<open>Pending list options\<close>

lemma set_parsed_fields:
  assumes "i < length (m_options p)"
  shows "type (m_options (set_parsed i p) ! i) = type (m_options p ! i)"
    "parseFn (m_options (set_parsed i p) ! i) = parseFn (m_options p ! i)"
    "valuePtr (m_options (set_parsed i p) ! i) = valuePtr (m_options p ! i)"
    "length (m_options (set_parsed i p)) = length (m_options p)"
  using assms by (simp_all add: set_parsed_def)

lemma set_parsed_idem: "set_parsed i (set_parsed i p) = set_parsed i p"
  by (cases "i < length (m_options p)") (simp_all add: set_parsed_def list_update_beyond)

lemma pending_list_pass:
  assumes opt: "i < length (m_options p)" "type (m_options p ! i) = list"
      "parseFn (m_options p ! i) = parseList T" "valuePtr (m_options p ! i) = a"
    and target: "m a = VVec xs"
    and bare: "b \<noteq> []" "hd b \<noteq> CHR ''-''"
    and conv: "fst (parse_T T b (default_val T))"
  shows "parse_arg h b pos (Some i) False (p, m) =
           Continue pos (if h then None else Some i) False
             (set_parsed i p, m(a := VVec (xs @ [snd (parse_T T b (default_val T))])))"
proof -
  obtain ok e where pe: "parse_T T b (default_val T) = (ok, e)" by (cases "parse_T T b (default_val T)")
  with conv have ok: "ok" by simp
  have "parseOption i b (set_parsed i p, m)
      = (True, set_parsed i p, m(a := VVec (xs @ [e])))"
    using opt pe ok target by (simp add: parseOption_def set_parsed_fields)
  then show ?thesis using opt bare pe
    by (simp add: parse_arg_bare parse_bare_def set_parsed_fields)
qed

lemma pending_list_greedy:
  assumes "\<not> h"
    and "i < length (m_options p)" "type (m_options p ! i) = list"
      "parseFn (m_options p ! i) = parseList T" "valuePtr (m_options p ! i) = a"
    and "m a = VVec xs"
    and "\<forall>k<length bs. argv_at argv (argNum + int k) = Some (bs ! k)"
    and "argNum + int (length bs) \<le> argc"
    and "\<forall>b\<in>set bs. b \<noteq> [] \<and> hd b \<noteq> CHR ''-'' \<and> fst (parse_T T b (default_val T))"
  shows "parse_loop argc argv h argNum pos (Some i) False (p, m) =
         parse_loop argc argv h (argNum + int (length bs)) pos (Some i) False
           (if bs = [] then p else set_parsed i p,
            m(a := VVec (xs @ map (\<lambda>b. snd (parse_T T b (default_val T))) bs)))"
  using assms
proof (induction bs arbitrary: argNum p m xs)
  case Nil
  have "m(a := VVec xs) = m" using Nil.prems(6) by auto
  then show ?case by simp
next
  case (Cons b bs)
  let ?v = "snd (parse_T T b (default_val T))"
  let ?m1 = "m(a := VVec (xs @ [?v]))"
  let ?p1 = "set_parsed i p"
  have at: "argv_at argv argNum = Some b" using Cons.prems(7) by (auto dest: spec [of _ 0])
  have lt: "argNum < argc" using Cons.prems(8) by simp
  have b: "b \<noteq> []" "hd b \<noteq> CHR ''-''" "fst (parse_T T b (default_val T))"
    using Cons.prems(9) by simp_all
  have pass: "parse_arg h b pos (Some i) False (p, m) = Continue pos (Some i) False (?p1, ?m1)"
    using pending_list_pass [where m = m and a = a and h = h and pos = pos, OF Cons.prems(2-6) b]
      Cons.prems(1) by simp
  have step: "parse_loop argc argv h argNum pos (Some i) False (p, m)
      = parse_loop argc argv h (argNum + 1) pos (Some i) False (?p1, ?m1)"
    by (simp only: parse_loop_step [OF lt at] pass step.simps)
  have rest_at: "\<forall>k<length bs. argv_at argv (argNum + 1 + int k) = Some (bs ! k)"
  proof (intro allI impI)
    fix k assume "k < length bs"
    then have "argv_at argv (argNum + int (Suc k)) = Some ((b # bs) ! Suc k)"
      using Cons.prems(7) by (auto dest: spec [of _ "Suc k"])
    then show "argv_at argv (argNum + 1 + int k) = Some (bs ! k)" by (simp add: algebra_simps)
  qed
  have rest_len: "argNum + 1 + int (length bs) \<le> argc" using Cons.prems(8) by simp
  have rest_ok: "\<forall>b\<in>set bs. b \<noteq> [] \<and> hd b \<noteq> CHR ''-'' \<and> fst (parse_T T b (default_val T))"
    using Cons.prems(9) by simp
  have opt1: "i < length (m_options ?p1)" "type (m_options ?p1 ! i) = list"
      "parseFn (m_options ?p1 ! i) = parseList T" "valuePtr (m_options ?p1 ! i) = a"
    using Cons.prems(2-5) by (simp_all add: set_parsed_fields)
  have m1: "?m1 a = VVec (xs @ [?v])" by simp
  from Cons.IH [where m = ?m1 and p = ?p1, OF Cons.prems(1) opt1 m1 rest_at rest_len rest_ok]
  have ih: "parse_loop argc argv h (argNum + 1) pos (Some i) False (?p1, ?m1) =
         parse_loop argc argv h (argNum + 1 + int (length bs)) pos (Some i) False
           (if bs = [] then ?p1 else set_parsed i ?p1,
            ?m1(a := VVec ((xs @ [?v]) @ map (\<lambda>b. snd (parse_T T b (default_val T))) bs)))" .
  have e1: "(if bs = [] then ?p1 else set_parsed i ?p1) = ?p1" by (simp add: set_parsed_idem)
  have e2: "?m1(a := VVec ((xs @ [?v]) @ map (\<lambda>b. snd (parse_T T b (default_val T))) bs))
      = m(a := VVec (xs @ map (\<lambda>b. snd (parse_T T b (default_val T))) (b # bs)))" by simp
  have e3: "argNum + 1 + int (length bs) = argNum + int (length (b # bs))" by simp
  have e4: "(if b # bs = [] then p else ?p1) = ?p1" by simp
  show ?case by (simp only: step ih e1 e2 e3 e4)
qed


text \<open>
  Claim C4: let the List option \<open>i\<close>, bound to the vector at \<open>a\<close>, be pending when the
  loop reaches a run \<open>bs\<close> of bare tokens (not empty, not starting with \<open>-\<close>) that
  convert to the element type. If no option has a nonzero \<open>position\<close>, the passes over
  \<open>bs\<close> append the value of every token to the vector, in order, and leave the option
  pending; if some option has a nonzero \<open>position\<close>, the first token alone is appended
  and no option is pending after it. A token that starts with \<open>-\<close> is read as if no
  option were pending.
\<close>

theorem pending_list_consumption:
  assumes opt: "i < length (m_options p)" "type (m_options p ! i) = list"
      "parseFn (m_options p ! i) = parseList T" "valuePtr (m_options p ! i) = a"
      "m a = VVec xs"
    and h: "h = list_ex (\<lambda>opt. position opt \<noteq> 0) (m_options p)"
    and toks: "\<forall>k<length bs. argv_at argv (argNum + int k) = Some (bs ! k)"
      "argNum + int (length bs) \<le> argc"
    and bare: "\<forall>b\<in>set bs. b \<noteq> [] \<and> hd b \<noteq> CHR ''-'' \<and> fst (parse_T T b (default_val T))"
  shows "((\<forall>opt\<in>set (m_options p). position opt = 0) \<longrightarrow>
            parse_loop argc argv h argNum pos (Some i) False (p, m) =
            parse_loop argc argv h (argNum + int (length bs)) pos (Some i) False
              (if bs = [] then p else set_parsed i p,
               m(a := VVec (xs @ map (\<lambda>b. snd (parse_T T b (default_val T))) bs))))
       \<and> ((\<exists>opt\<in>set (m_options p). position opt \<noteq> 0) \<and> bs \<noteq> [] \<longrightarrow>
            parse_loop argc argv h argNum pos (Some i) False (p, m) =
            parse_loop argc argv h (argNum + 1) pos None False
              (set_parsed i p,
               m(a := VVec (xs @ [snd (parse_T T (hd bs) (default_val T))]))))
       \<and> (\<forall>n t pm. n < argc \<and> argv_at argv n = Some (CHR ''-'' # t) \<longrightarrow>
            parse_loop argc argv h n pos (Some i) False pm =
            parse_loop argc argv h n pos None False pm)"
proof (intro conjI impI allI)
  assume "\<forall>opt\<in>set (m_options p). position opt = 0"
  then have "\<not> h" using h by (simp add: list_ex_iff)
  from pending_list_greedy [where m = m and a = a, OF this opt toks bare]
  show "parse_loop argc argv h argNum pos (Some i) False (p, m) =
            parse_loop argc argv h (argNum + int (length bs)) pos (Some i) False
              (if bs = [] then p else set_parsed i p,
               m(a := VVec (xs @ map (\<lambda>b. snd (parse_T T b (default_val T))) bs)))" .
next
  assume a: "(\<exists>opt\<in>set (m_options p). position opt \<noteq> 0) \<and> bs \<noteq> []"
  then have hp: "h" using h by (simp add: list_ex_iff)
  from a obtain b bs' where bs: "bs = b # bs'" by (cases bs) auto
  have at: "argv_at argv argNum = Some b" using toks(1) bs by (auto dest: spec [of _ 0])
  have lt: "argNum < argc" using toks(2) bs by simp
  have b: "b \<noteq> []" "hd b \<noteq> CHR ''-''" "fst (parse_T T b (default_val T))"
    using bare bs by simp_all
  have pass: "parse_arg h b pos (Some i) False (p, m) =
      Continue pos None False (set_parsed i p, m(a := VVec (xs @ [snd (parse_T T b (default_val T))])))"
    using pending_list_pass [where m = m and a = a and h = h and pos = pos, OF opt b] hp by simp
  show "parse_loop argc argv h argNum pos (Some i) False (p, m) =
            parse_loop argc argv h (argNum + 1) pos None False
              (set_parsed i p,
               m(a := VVec (xs @ [snd (parse_T T (hd bs) (default_val T))])))"
    by (simp only: parse_loop_step [OF lt at] pass step.simps bs list.sel)
next
  fix n t pm
  assume a: "n < argc \<and> argv_at argv n = Some (CHR ''-'' # t)"
  then have lt: "n < argc" and at: "argv_at argv n = Some (CHR ''-'' # t)" by blast+
  show "parse_loop argc argv h n pos (Some i) False pm =
            parse_loop argc argv h n pos None False pm"
    by (simp only: parse_loop_step [OF lt at] parse_arg_dash)
qed

theorem pending_list_consumption_witness:
  "\<exists>p'. parse 4 [''prog'', ''--inc'', ''a'', ''b'']
            (add_vector string_view_t 2 ''inc,I'' [] 0 new_parser, test_store)
          = Some (True, p', test_store(2 := VVec [VStr ''a'', VStr ''b'']))"
proof -
  let ?argv = "[''prog'', ''--inc'', ''a'', ''b'']"
  let ?opt = "\<lparr>type = list, parsed = False, required = False, valuePtr = 2,
      parseFn = parseList string_view_t, name = ''inc'', flags = ''I'', helpText = [],
      hint = [], position = 0\<rparr>"
  let ?p = "\<lparr>m_program = ''prog'', m_skipUnknown = False, m_options = [?opt], m_error = []\<rparr>"
  have q: "add_vector string_view_t 2 ''inc,I'' [] 0 new_parser = ?p\<lparr>m_program := []\<rparr>"
    by (simp add: add_vector_def new_parser_def Option_ctor_def Let_def remove_prefix_def
        substr_def substr_from_def)
  have p1: "parse 4 ?argv (add_vector string_view_t 2 ''inc,I'' [] 0 new_parser, test_store)
      = parse_loop 4 ?argv False 2 0 (Some 0) False (?p, test_store)"
    by (simp add: q parse_def argv_at_def basename_def parse_loop.simps [of _ _ _ 1]
        parse_arg_def parse_dash_def parse_resolved_def findOption_name_def remove_prefix_def
        Let_def)
  have toks: "\<forall>k<length [''a'', ''b'']. argv_at ?argv (2 + int k) = Some ([''a'', ''b''] ! k)"
  proof (intro allI impI)
    fix k :: nat assume "k < length [''a'', ''b'']"
    then have "k = 0 \<or> k = 1" by auto
    then show "argv_at ?argv (2 + int k) = Some ([''a'', ''b''] ! k)"
      by (auto simp: argv_at_def)
  qed
  have g: "parse_loop 4 ?argv False 2 0 (Some 0) False (?p, test_store)
      = parse_loop 4 ?argv False 4 0 (Some 0) False
          (set_parsed 0 ?p, test_store(2 := VVec [VStr ''a'', VStr ''b'']))"
    using pending_list_consumption [where p = ?p and i = 0 and T = string_view_t and a = 2
        and m = test_store and xs = "[]" and h = False and bs = "[''a'', ''b'']"
        and argv = ?argv and argNum = 2 and argc = 4 and pos = 0] toks
    by (simp add: test_store_def)
  have e: "\<exists>p'. parse_loop 4 ?argv False 4 0 (Some 0) False
          (set_parsed 0 ?p, test_store(2 := VVec [VStr ''a'', VStr ''b'']))
        = Some (True, p', test_store(2 := VVec [VStr ''a'', VStr ''b'']))"
    by (simp add: parse_loop.simps [of _ _ _ 4] set_parsed_def)
  show ?thesis unfolding p1 g using e .
qed

section \<open>Skipping unknown options\<close>

lemma findOption_pos_loop_cong:
  "map position opts = map position opts' \<Longrightarrow>
   findOption_pos_loop opts n i acc = findOption_pos_loop opts' n i acc"
proof (induction opts arbitrary: opts' i acc)
  case Nil
  then show ?case by simp
next
  case (Cons o1 opts)
  then obtain o2 rest where "opts' = o2 # rest" by (cases opts') auto
  with Cons show ?case by auto
qed

lemma findOption_pos_set_parsed: "findOption_pos n (set_parsed k p) = findOption_pos n p"
  unfolding findOption_pos_def
  by (rule findOption_pos_loop_cong)
     (simp add: set_parsed_def map_update_same [where g = "\<lambda>x. x\<lparr>parsed := True\<rparr>"])

lemma positional_list_pass:
  assumes opt: "k < length (m_options p)" "parseFn (m_options p ! k) = parseList T"
      "valuePtr (m_options p ! k) = a"
    and target: "m a = VVec xs"
    and slot: "findOption_pos (pos + 1) p = Some k"
    and bare: "f \<noteq> []" "hd f \<noteq> CHR ''-''"
    and conv: "fst (parse_T T f (default_val T))"
  shows "parse_arg h f pos None False (p, m) =
           Continue (pos + 1) None False
             (set_parsed k p, m(a := VVec (xs @ [snd (parse_T T f (default_val T))])))"
proof -
  obtain ok e where pe: "parse_T T f (default_val T) = (ok, e)"
    by (cases "parse_T T f (default_val T)")
  with conv have ok: "ok" by simp
  have "parseOption k f (set_parsed k p, m)
      = (True, set_parsed k p, m(a := VVec (xs @ [e])))"
    using opt pe ok target by (simp add: parseOption_def set_parsed_fields)
  then show ?thesis using slot bare pe
    by (simp add: parse_arg_bare parse_bare_def)
qed

lemma positional_list_run:
  assumes "k < length (m_options p)" "parseFn (m_options p ! k) = parseList T"
      "valuePtr (m_options p ! k) = a"
    and "m a = VVec xs"
    and "\<forall>j<length fs. argv_at argv (argNum + int j) = Some (fs ! j)"
    and "argNum + int (length fs) \<le> argc"
    and "\<forall>j<length fs. findOption_pos (pos + 1 + int j) p = Some k"
    and "\<forall>f\<in>set fs. f \<noteq> [] \<and> hd f \<noteq> CHR ''-'' \<and> fst (parse_T T f (default_val T))"
  shows "parse_loop argc argv h argNum pos None False (p, m) =
         parse_loop argc argv h (argNum + int (length fs)) (pos + int (length fs)) None False
           (if fs = [] then p else set_parsed k p,
            m(a := VVec (xs @ map (\<lambda>f. snd (parse_T T f (default_val T))) fs)))"
  using assms
proof (induction fs arbitrary: argNum pos p m xs)
  case Nil
  have "m(a := VVec xs) = m" using Nil.prems(4) by auto
  then show ?case by simp
next
  case (Cons f fs)
  let ?v = "snd (parse_T T f (default_val T))"
  let ?m1 = "m(a := VVec (xs @ [?v]))"
  let ?p1 = "set_parsed k p"
  have at: "argv_at argv argNum = Some f" using Cons.prems(5) by (auto dest: spec [of _ 0])
  have lt: "argNum < argc" using Cons.prems(6) by simp
  have slot: "findOption_pos (pos + 1) p = Some k" using Cons.prems(7) by (auto dest: spec [of _ 0])
  have b: "f \<noteq> []" "hd f \<noteq> CHR ''-''" "fst (parse_T T f (default_val T))"
    using Cons.prems(8) by simp_all
  have pass: "parse_arg h f pos None False (p, m) = Continue (pos + 1) None False (?p1, ?m1)"
    using positional_list_pass [where m = m and a = a and h = h, OF Cons.prems(1-4) slot b] .
  have step: "parse_loop argc argv h argNum pos None False (p, m)
      = parse_loop argc argv h (argNum + 1) (pos + 1) None False (?p1, ?m1)"
    by (simp only: parse_loop_step [OF lt at] pass step.simps)
  have rest_at: "\<forall>j<length fs. argv_at argv (argNum + 1 + int j) = Some (fs ! j)"
  proof (intro allI impI)
    fix j assume "j < length fs"
    then have "argv_at argv (argNum + int (Suc j)) = Some ((f # fs) ! Suc j)"
      using Cons.prems(5) by (auto dest: spec [of _ "Suc j"])
    then show "argv_at argv (argNum + 1 + int j) = Some (fs ! j)" by (simp add: algebra_simps)
  qed
  have rest_slot: "\<forall>j<length fs. findOption_pos (pos + 1 + 1 + int j) ?p1 = Some k"
  proof (intro allI impI)
    fix j assume "j < length fs"
    then have "findOption_pos (pos + 1 + int (Suc j)) p = Some k"
      using Cons.prems(7) by (auto dest: spec [of _ "Suc j"])
    then show "findOption_pos (pos + 1 + 1 + int j) ?p1 = Some k"
      by (simp add: findOption_pos_set_parsed algebra_simps)
  qed
  have rest_len: "argNum + 1 + int (length fs) \<le> argc" using Cons.prems(6) by simp
  have rest_ok: "\<forall>f\<in>set fs. f \<noteq> [] \<and> hd f \<noteq> CHR ''-'' \<and> fst (parse_T T f (default_val T))"
    using Cons.prems(8) by simp
  have opt1: "k < length (m_options ?p1)" "parseFn (m_options ?p1 ! k) = parseList T"
      "valuePtr (m_options ?p1 ! k) = a"
    using Cons.prems(1-3) by (simp_all add: set_parsed_fields)
  have m1: "?m1 a = VVec (xs @ [?v])" by simp
  from Cons.IH [where m = ?m1 and p = ?p1, OF opt1 m1 rest_at rest_len rest_slot rest_ok]
  have ih: "parse_loop argc argv h (argNum + 1) (pos + 1) None False (?p1, ?m1) =
         parse_loop argc argv h (argNum + 1 + int (length fs)) (pos + 1 + int (length fs))
           None False
           (if fs = [] then ?p1 else set_parsed k ?p1,
            ?m1(a := VVec ((xs @ [?v]) @ map (\<lambda>f. snd (parse_T T f (default_val T))) fs)))" .
  have e1: "(if fs = [] then ?p1 else set_parsed k ?p1) = ?p1" by (simp add: set_parsed_idem)
  have e2: "?m1(a := VVec ((xs @ [?v]) @ map (\<lambda>f. snd (parse_T T f (default_val T))) fs))
      = m(a := VVec (xs @ map (\<lambda>f. snd (parse_T T f (default_val T))) (f # fs)))" by simp
  have e3: "argNum + 1 + int (length fs) = argNum + int (length (f # fs))"
    "pos + 1 + int (length fs) = pos + int (length (f # fs))" by simp_all
  have e4: "(if f # fs = [] then p else ?p1) = ?p1" by simp
  show ?case by (simp only: step ih e1 e2 e3 e4)
qed

lemma unknown_long_pass:
  assumes "m_skipUnknown p"
    and "u = ''--'' @ nm \<or> u = ''--'' @ nm @ CHR ''='' # w"
    and "nm \<noteq> []" "CHR ''='' \<notin> set nm" "fst (findOption_name nm p) = None"
  shows "parse_arg h u pos lo lu (p, m) = Continue pos None True (p, m)"
proof -
  have f: "findOption_name nm p = (None, p)"
    using assms(1,5) by (simp add: findOption_name_def split: option.splits)
  from assms(2) show ?thesis
  proof
    assume u: "u = ''--'' @ nm"
    then have "parse_arg h u pos lo lu (p, m) = parse_dash h (''--'' @ nm) pos (p, m)"
      by (simp add: parse_arg_def)
    then show ?thesis using assms(1,3,4) f
      by (simp add: parse_dash_long parse_resolved_def del: append.simps)
  next
    assume u: "u = ''--'' @ nm @ CHR ''='' # w"
    then have "parse_arg h u pos lo lu (p, m)
        = parse_dash h (''--'' @ nm @ CHR ''='' # w) pos (p, m)"
      by (simp add: parse_arg_def)
    then show ?thesis using assms(1,3,4) f
      by (simp add: parse_dash_long_value parse_resolved_def del: append.simps)
  qed
qed

lemma skipped_value_pass:
  assumes "v \<noteq> []" "hd v \<noteq> CHR ''-''"
  shows "parse_arg h v pos lo True (p, m) = Continue pos lo False (p, m)"
  using assms by (simp add: parse_arg_bare parse_bare_def)

text \<open>
  Claim C7: with unknown-option skipping enabled, when the loop reaches, in any state,
  an unknown long option (with or without an inline value) followed by a bare token,
  the two passes leave the parser object, the variables and the positional counter as
  they are, and the loop goes on after the bare token with no option pending: both
  tokens are discarded and the bare token is not routed as a positional. When the
  tokens after the pair are bare tokens that the positional lookup routes to a list
  option, \<open>parse\<close> succeeds and these tokens alone are appended to its vector. On
  \<open>prog --bogus val a.txt\<close> the test program's parser succeeds with \<open>files\<close> holding
  \<open>a.txt\<close>, and on \<open>prog a.txt --bogus val b.txt\<close> with \<open>a.txt\<close> and \<open>b.txt\<close>.
\<close>

theorem unknown_option_value_discarded:
  assumes skip: "m_skipUnknown p"
    and unknown: "u = ''--'' @ nm \<or> u = ''--'' @ nm @ CHR ''='' # w"
      "nm \<noteq> []" "CHR ''='' \<notin> set nm" "fst (findOption_name nm p) = None"
    and bare: "v \<noteq> []" "hd v \<noteq> CHR ''-''"
    and toks: "argv_at argv argNum = Some u" "argv_at argv (argNum + 1) = Some v"
      "argNum + 1 < argc"
  shows "parse_arg h u pos lo lu (p, m) = Continue pos None True (p, m)
       \<and> parse_arg h v pos None True (p, m) = Continue pos None False (p, m)
       \<and> parse_loop argc argv h argNum pos lo lu (p, m)
           = parse_loop argc argv h (argNum + 2) pos None False (p, m)
       \<and> ((\<forall>j<length fs. argv_at argv (argNum + 2 + int j) = Some (fs ! j))
            \<and> argNum + 2 + int (length fs) = argc
            \<and> (\<forall>f\<in>set fs. f \<noteq> [] \<and> hd f \<noteq> CHR ''-'' \<and> fst (parse_T T f (default_val T)))
            \<and> (\<forall>j<length fs. findOption_pos (pos + 1 + int j) p = Some k)
            \<and> k < length (m_options p) \<and> parseFn (m_options p ! k) = parseList T
            \<and> valuePtr (m_options p ! k) = a \<and> m a = VVec xs
           \<longrightarrow> parse_loop argc argv h argNum pos lo lu (p, m)
                 = Some (True, if fs = [] then p else set_parsed k p,
                         m(a := VVec (xs @ map (\<lambda>f. snd (parse_T T f (default_val T))) fs))))"
proof -
  have s1: "parse_arg h u pos lo lu (p, m) = Continue pos None True (p, m)"
    by (rule unknown_long_pass [OF skip unknown])
  have s2: "parse_arg h v pos None True (p, m) = Continue pos None False (p, m)"
    by (rule skipped_value_pass [OF bare])
  have lt: "argNum < argc" using toks(3) by simp
  have l1: "parse_loop argc argv h argNum pos lo lu (p, m)
         = parse_loop argc argv h (argNum + 1) pos None True (p, m)"
    by (simp only: parse_loop_step [OF lt toks(1)] s1 step.simps)
  have l2: "parse_loop argc argv h (argNum + 1) pos None True (p, m)
         = parse_loop argc argv h (argNum + 1 + 1) pos None False (p, m)"
    by (simp only: parse_loop_step [OF toks(3) toks(2)] s2 step.simps)
  have two: "argNum + 1 + 1 = argNum + 2" by simp
  have l: "parse_loop argc argv h argNum pos lo lu (p, m)
           = parse_loop argc argv h (argNum + 2) pos None False (p, m)"
    using l1 l2 two by simp
  have r: "parse_loop argc argv h argNum pos lo lu (p, m)
                 = Some (True, if fs = [] then p else set_parsed k p,
                         m(a := VVec (xs @ map (\<lambda>f. snd (parse_T T f (default_val T))) fs)))"
    if a: "(\<forall>j<length fs. argv_at argv (argNum + 2 + int j) = Some (fs ! j))
            \<and> argNum + 2 + int (length fs) = argc
            \<and> (\<forall>f\<in>set fs. f \<noteq> [] \<and> hd f \<noteq> CHR ''-'' \<and> fst (parse_T T f (default_val T)))
            \<and> (\<forall>j<length fs. findOption_pos (pos + 1 + int j) p = Some k)
            \<and> k < length (m_options p) \<and> parseFn (m_options p ! k) = parseList T
            \<and> valuePtr (m_options p ! k) = a \<and> m a = VVec xs"
  proof -
    from a have h1: "\<forall>j<length fs. argv_at argv (argNum + 2 + int j) = Some (fs ! j)"
      and h2: "argNum + 2 + int (length fs) = argc"
      and h3: "\<forall>f\<in>set fs. f \<noteq> [] \<and> hd f \<noteq> CHR ''-'' \<and> fst (parse_T T f (default_val T))"
      and h4: "\<forall>j<length fs. findOption_pos (pos + 1 + int j) p = Some k"
      and h5: "k < length (m_options p)" and h6: "parseFn (m_options p ! k) = parseList T"
      and h7: "valuePtr (m_options p ! k) = a" and h8: "m a = VVec xs"
      by blast+
    have le: "argNum + 2 + int (length fs) \<le> argc" using h2 by simp
    note run = positional_list_run [where m = m and a = a and h = h, OF h5 h6 h7 h8 h1 le h4 h3]
    have fin: "\<not> argNum + 2 + int (length fs) < argc" using h2 by simp
    show ?thesis
      by (simp only: l run parse_loop_end [OF fin] option.case)
  qed
  from s1 s2 l r show ?thesis by blast
qed

theorem unknown_option_value_discarded_witness:
  "(\<exists>p'. parse 4 [''prog'', ''--bogus'', ''val'', ''a.txt'']
             (skipUnknown True test_parser, test_store)
           = Some (True, p', test_store(2 := VVec [VStr ''a.txt''])))
   \<and> (\<exists>p'. parse 5 [''prog'', ''a.txt'', ''--bogus'', ''val'', ''b.txt'']
             (skipUnknown True test_parser, test_store)
           = Some (True, p', test_store(2 := VVec [VStr ''a.txt'', VStr ''b.txt''])))"
proof -
  let ?p = "(skipUnknown True test_parser)\<lparr>m_program := ''prog''\<rparr>"
  have o: "m_options ?p = m_options test_parser" "m_skipUnknown ?p"
    by (simp_all add: skipUnknown_def)
  have u: "fst (findOption_name ''bogus'' q) = None" if "m_options q = m_options ?p" for q
    using that by (simp add: findOption_name_def o test_parser_options)
  have p1: "parse n (''prog'' # ts) (skipUnknown True test_parser, test_store)
      = parse_loop n (''prog'' # ts) True 1 0 None False (?p, test_store)" for n ts
    by (simp add: parse_def argv_at_def basename_def skipUnknown_def test_parser_options)
  have k: "2 < length (m_options ?p)" "parseFn (m_options ?p ! 2) = parseList string_view_t"
    "valuePtr (m_options ?p ! 2) = 2"
    by (simp_all add: o test_parser_options)
  have slot: "findOption_pos n q = Some 2" if "m_options q = m_options ?p" "0 < n" for n q
    using that by (simp add: findOption_pos_def o test_parser_options)
  let ?argv1 = "[''prog'', ''--bogus'', ''val'', ''a.txt'']"
  have i1: "(\<forall>j<length [''a.txt'']. argv_at ?argv1 (1 + 2 + int j) = Some ([''a.txt''] ! j))
            \<and> 1 + 2 + int (length [''a.txt'']) = 4
            \<and> (\<forall>f\<in>set [''a.txt'']. f \<noteq> [] \<and> hd f \<noteq> CHR ''-''
                  \<and> fst (parse_T string_view_t f (default_val string_view_t)))
            \<and> (\<forall>j<length [''a.txt'']. findOption_pos (0 + 1 + int j) ?p = Some 2)
            \<and> 2 < length (m_options ?p) \<and> parseFn (m_options ?p ! 2) = parseList string_view_t
            \<and> valuePtr (m_options ?p ! 2) = 2 \<and> test_store 2 = VVec []"
    using k slot [OF refl, of 1] by (simp add: argv_at_def test_store_def)
  have t1: "parse_loop 4 ?argv1 True 1 0 None False (?p, test_store)
      = Some (True, if [''a.txt''] = [] then ?p else set_parsed 2 ?p,
              test_store(2 := VVec ([] @ map (\<lambda>f. snd (parse_T string_view_t f
                                                  (default_val string_view_t))) [''a.txt''])))"
    by (rule unknown_option_value_discarded [where p = ?p and u = "''--bogus''"
          and nm = "''bogus''" and v = "''val''" and argv = ?argv1 and argNum = 1 and argc = 4
          and h = True and pos = 0 and lo = None and lu = False and m = test_store
          and fs = "[''a.txt'']" and T = string_view_t and k = 2 and a = 2 and xs = "[]",
          THEN conjunct2, THEN conjunct2, THEN conjunct2, THEN mp, OF _ _ _ _ _ _ _ _ _ _ i1])
      (simp_all add: o u [OF refl] argv_at_def)
  then have w1: "\<exists>p'. parse 4 ?argv1 (skipUnknown True test_parser, test_store)
           = Some (True, p', test_store(2 := VVec [VStr ''a.txt'']))"
    by (simp add: p1)
  let ?argv2 = "[''prog'', ''a.txt'', ''--bogus'', ''val'', ''b.txt'']"
  let ?p1 = "set_parsed 2 ?p"
  let ?m1 = "test_store(2 := VVec [VStr ''a.txt''])"
  have o1: "m_options ?p1 = m_options (set_parsed 2 test_parser)" "m_skipUnknown ?p1"
    by (simp_all add: set_parsed_def skipUnknown_def)
  have first: "parse_loop 5 ?argv2 True 1 0 None False (?p, test_store)
      = parse_loop 5 ?argv2 True 2 1 None False (?p1, ?m1)"
    by (simp add: parse_loop.simps [of _ _ _ 1] argv_at_def parse_arg_def parse_bare_def
        findOption_pos_def parseOption_def set_parsed_def skipUnknown_def test_parser_options
        test_store_def)
  have u1: "fst (findOption_name ''bogus'' ?p1) = None"
    by (simp add: findOption_name_def set_parsed_def skipUnknown_def test_parser_options)
  have k1: "2 < length (m_options ?p1)" "parseFn (m_options ?p1 ! 2) = parseList string_view_t"
    "valuePtr (m_options ?p1 ! 2) = 2"
    by (simp_all add: set_parsed_def skipUnknown_def test_parser_options)
  have slot1: "findOption_pos 2 ?p1 = Some 2"
    by (simp add: findOption_pos_set_parsed slot [OF refl])
  have i2: "(\<forall>j<length [''b.txt'']. argv_at ?argv2 (2 + 2 + int j) = Some ([''b.txt''] ! j))
            \<and> 2 + 2 + int (length [''b.txt'']) = 5
            \<and> (\<forall>f\<in>set [''b.txt'']. f \<noteq> [] \<and> hd f \<noteq> CHR ''-''
                  \<and> fst (parse_T string_view_t f (default_val string_view_t)))
            \<and> (\<forall>j<length [''b.txt'']. findOption_pos (1 + 1 + int j) ?p1 = Some 2)
            \<and> 2 < length (m_options ?p1) \<and> parseFn (m_options ?p1 ! 2) = parseList string_view_t
            \<and> valuePtr (m_options ?p1 ! 2) = 2 \<and> ?m1 2 = VVec [VStr ''a.txt'']"
    using k1 slot1 by (simp add: argv_at_def)
  have t2: "parse_loop 5 ?argv2 True 2 1 None False (?p1, ?m1)
      = Some (True, if [''b.txt''] = [] then ?p1 else set_parsed 2 ?p1,
              ?m1(2 := VVec ([VStr ''a.txt''] @ map (\<lambda>f. snd (parse_T string_view_t f
                                                  (default_val string_view_t))) [''b.txt''])))"
    by (rule unknown_option_value_discarded [where p = ?p1 and u = "''--bogus''"
          and nm = "''bogus''" and v = "''val''" and argv = ?argv2 and argNum = 2 and argc = 5
          and h = True and pos = 1 and lo = None and lu = False and m = ?m1
          and fs = "[''b.txt'']" and T = string_view_t and k = 2 and a = 2
          and xs = "[VStr ''a.txt'']",
          THEN conjunct2, THEN conjunct2, THEN conjunct2, THEN mp, OF _ _ _ _ _ _ _ _ _ _ i2])
      (simp_all add: o1 u1 argv_at_def)
  with first have w2: "\<exists>p'. parse 5 ?argv2 (skipUnknown True test_parser, test_store)
           = Some (True, p', test_store(2 := VVec [VStr ''a.txt'', VStr ''b.txt'']))"
    by (simp add: p1)
  from w1 w2 show ?thesis by blast
qed

end
